theory Spec2Isabelle
  imports Main "HOL-Library.Multiset"
begin

section \<open>Bound algebra\<close>

text \<open>Time values are the elements of a linear order; the source instantiates
  the range templates at \<^verbatim>\<open>float\<close> and only compares them during a sweep.\<close>

datatype 'a TRangeBound = Open | Inclusive 'a | Exclusive 'a

datatype 'a TRange = TRange (GetLowerBound: "'a TRangeBound") (GetUpperBound: "'a TRangeBound")

text \<open>Modelled from the spec: the range and bound templates (TRangeBound, TRange) are
  used by the compiler but their header is not part of the sources at hand. The
  operations below follow section 4.1 of the specification.\<close>

fun IsOpen :: "'a TRangeBound \<Rightarrow> bool" where
  "IsOpen Open = True"
| "IsOpen (Inclusive v) = False"
| "IsOpen (Exclusive v) = False"

text \<open>Modelled from the spec: FlipInclusion maps Open to Open, Closed-Inclusive(v) to
  Closed-Exclusive(v) and Closed-Exclusive(v) to Closed-Inclusive(v).\<close>

fun FlipInclusion :: "'a TRangeBound \<Rightarrow> 'a TRangeBound" where
  "FlipInclusion Open = Open"
| "FlipInclusion (Inclusive v) = Exclusive v"
| "FlipInclusion (Exclusive v) = Inclusive v"

text \<open>Modelled from the spec: MinLower picks the smaller of two lower bounds. An Open
  lower bound is minimal; among equal values the inclusive lower bound is the smaller.\<close>

fun MinLower :: "'a::linorder TRangeBound \<Rightarrow> 'a TRangeBound \<Rightarrow> 'a TRangeBound" where
  "MinLower Open B = Open"
| "MinLower A Open = Open"
| "MinLower (Inclusive a) (Inclusive b) = (if a < b then Inclusive a else if b < a then Inclusive b else Inclusive a)"
| "MinLower (Inclusive a) (Exclusive b) = (if a < b then Inclusive a else if b < a then Exclusive b else Inclusive a)"
| "MinLower (Exclusive a) (Inclusive b) = (if a < b then Exclusive a else if b < a then Inclusive b else Inclusive b)"
| "MinLower (Exclusive a) (Exclusive b) = (if a < b then Exclusive a else if b < a then Exclusive b else Exclusive b)"

text \<open>Modelled from the spec: MinUpper picks the smaller of two upper bounds. An Open
  upper bound is maximal; among equal values the exclusive upper bound is the smaller.\<close>

fun MinUpper :: "'a::linorder TRangeBound \<Rightarrow> 'a TRangeBound \<Rightarrow> 'a TRangeBound" where
  "MinUpper Open B = B"
| "MinUpper A Open = A"
| "MinUpper (Inclusive a) (Inclusive b) = (if a < b then Inclusive a else if b < a then Inclusive b else Inclusive b)"
| "MinUpper (Inclusive a) (Exclusive b) = (if a < b then Inclusive a else if b < a then Exclusive b else Exclusive b)"
| "MinUpper (Exclusive a) (Inclusive b) = (if a < b then Exclusive a else if b < a then Inclusive b else Exclusive a)"
| "MinUpper (Exclusive a) (Exclusive b) = (if a < b then Exclusive a else if b < a then Exclusive b else Exclusive a)"

text \<open>Modelled from the spec: the maxima are the mirror images of the minima (an Open
  lower bound is minimal, so the other bound is the greater lower bound; an Open upper
  bound is maximal).\<close>

fun MaxLower :: "'a::linorder TRangeBound \<Rightarrow> 'a TRangeBound \<Rightarrow> 'a TRangeBound" where
  "MaxLower Open B = B"
| "MaxLower A Open = A"
| "MaxLower (Inclusive a) (Inclusive b) = (if b < a then Inclusive a else if a < b then Inclusive b else Inclusive b)"
| "MaxLower (Inclusive a) (Exclusive b) = (if b < a then Inclusive a else if a < b then Exclusive b else Exclusive b)"
| "MaxLower (Exclusive a) (Inclusive b) = (if b < a then Exclusive a else if a < b then Inclusive b else Exclusive a)"
| "MaxLower (Exclusive a) (Exclusive b) = (if b < a then Exclusive a else if a < b then Exclusive b else Exclusive a)"

fun MaxUpper :: "'a::linorder TRangeBound \<Rightarrow> 'a TRangeBound \<Rightarrow> 'a TRangeBound" where
  "MaxUpper Open B = Open"
| "MaxUpper A Open = Open"
| "MaxUpper (Inclusive a) (Inclusive b) = (if b < a then Inclusive a else if a < b then Inclusive b else Inclusive a)"
| "MaxUpper (Inclusive a) (Exclusive b) = (if b < a then Inclusive a else if a < b then Exclusive b else Inclusive a)"
| "MaxUpper (Exclusive a) (Inclusive b) = (if b < a then Exclusive a else if a < b then Inclusive b else Inclusive b)"
| "MaxUpper (Exclusive a) (Exclusive b) = (if b < a then Exclusive a else if a < b then Exclusive b else Exclusive b)"

text \<open>Modelled from the spec: a range is empty when its lower bound is strictly greater
  than its upper bound, accounting for inclusive/exclusive at equal values: [5,5) is
  empty, [5,5] is not. A range with an Open bound is never empty.\<close>

fun IsEmpty :: "'a::linorder TRange \<Rightarrow> bool" where
  "IsEmpty (TRange (Inclusive a) (Inclusive b)) = (b < a)"
| "IsEmpty (TRange (Inclusive a) (Exclusive b)) = (b \<le> a)"
| "IsEmpty (TRange (Exclusive a) (Inclusive b)) = (b \<le> a)"
| "IsEmpty (TRange (Exclusive a) (Exclusive b)) = (b \<le> a)"
| "IsEmpty (TRange Open u) = False"
| "IsEmpty (TRange l Open) = False"

text \<open>Modelled from the spec: containment of a time value and of a range, by comparing
  bounds; a time value is compared as the inclusive bound at that value.\<close>

definition ContainsElement :: "'a::linorder TRange \<Rightarrow> 'a \<Rightarrow> bool" where
  "ContainsElement r p \<longleftrightarrow>
     MinLower (GetLowerBound r) (Inclusive p) = GetLowerBound r \<and>
     MaxUpper (GetUpperBound r) (Inclusive p) = GetUpperBound r"

definition Contains :: "'a::linorder TRange \<Rightarrow> 'a TRange \<Rightarrow> bool" where
  "Contains r other \<longleftrightarrow>
     MinLower (GetLowerBound r) (GetLowerBound other) = GetLowerBound r \<and>
     MaxUpper (GetUpperBound r) (GetUpperBound other) = GetUpperBound r"

text \<open>Modelled from the spec: Intersection is the range from the greater lower bound to
  the smaller upper bound; Hull is the smallest enclosing range of two ranges; Adjoins
  holds if the (closed) upper bound of one flips to exactly the lower bound of the other.\<close>

definition Intersection :: "'a::linorder TRange \<Rightarrow> 'a TRange \<Rightarrow> 'a TRange" where
  "Intersection x y =
     TRange (MaxLower (GetLowerBound x) (GetLowerBound y))
            (MinUpper (GetUpperBound x) (GetUpperBound y))"

definition Hull :: "'a::linorder TRange \<Rightarrow> 'a TRange \<Rightarrow> 'a TRange" where
  "Hull x y =
     (if IsEmpty x then y else if IsEmpty y then x
      else TRange (MinLower (GetLowerBound x) (GetLowerBound y))
                  (MaxUpper (GetUpperBound x) (GetUpperBound y)))"

definition Adjoins :: "'a::linorder TRange \<Rightarrow> 'a TRange \<Rightarrow> bool" where
  "Adjoins x y \<longleftrightarrow>
     (\<not> IsOpen (GetUpperBound x) \<and> FlipInclusion (GetUpperBound x) = GetLowerBound y) \<or>
     (\<not> IsOpen (GetUpperBound y) \<and> FlipInclusion (GetUpperBound y) = GetLowerBound x)"

section \<open>Data model of the segment compiler\<close>

datatype ESectionEvaluationFlags = NoFlags | PreRoll | PostRoll

record FSectionEvaluationData =
  ImplIndex :: int
  Flags :: ESectionEvaluationFlags

record 'a FMovieSceneSectionData =
  Bounds :: "'a TRange"
  EvalData :: FSectionEvaluationData
  Priority :: int

record 'a FMovieSceneSegment =
  Range' :: "'a TRange"
  Impls :: "FSectionEvaluationData list"

text \<open>FBound pairs a bound with the evaluation data of the section it belongs to.\<close>

record 'a FBound =
  BoundEvalData :: FSectionEvaluationData
  Bound :: "'a TRangeBound"

text \<open>The working buffers of FMovieSceneSegmentCompiler.\<close>

record 'a FMovieSceneSegmentCompiler =
  OverlappingSections :: "FSectionEvaluationData list"
  OverlappingRefCounts :: "int list"
  LowerBounds :: "'a FBound list"
  UpperBounds :: "'a FBound list"
  CompiledSegments :: "'a FMovieSceneSegment list"
  LowerReadIndex :: nat
  UpperReadIndex :: nat

section \<open>Array helpers\<close>

text \<open>Modelled from the spec: TArray::Sort is not part of the sources at hand; the
  specification asks for a stable sort, so this is insertion sort that keeps the input
  order among entries the predicate does not separate. The predicate says that its
  first argument may go before its second.\<close>

fun SortInsert :: "('b \<Rightarrow> 'b \<Rightarrow> bool) \<Rightarrow> 'b \<Rightarrow> 'b list \<Rightarrow> 'b list" where
  "SortInsert pred x [] = [x]"
| "SortInsert pred x (y # ys) = (if pred x y then x # y # ys else y # SortInsert pred x ys)"

fun Sort :: "('b \<Rightarrow> 'b \<Rightarrow> bool) \<Rightarrow> 'b list \<Rightarrow> 'b list" where
  "Sort pred [] = []"
| "Sort pred (x # xs) = SortInsert pred x (Sort pred xs)"

text \<open>IndexOfByKey: the first index holding the key, None for INDEX_NONE.\<close>

fun IndexOfByKey :: "'b list \<Rightarrow> 'b \<Rightarrow> nat option" where
  "IndexOfByKey [] k = None"
| "IndexOfByKey (x # xs) k =
     (if x = k then Some 0 else (case IndexOfByKey xs k of None \<Rightarrow> None | Some i \<Rightarrow> Some (Suc i)))"

text \<open>RemoveAtSwap: the last element takes the place of the removed one.\<close>

definition RemoveAtSwap :: "'b list \<Rightarrow> nat \<Rightarrow> 'b list" where
  "RemoveAtSwap xs i = (if i < length xs then butlast (xs[i := last xs]) else xs)"

section \<open>The sweep\<close>

text \<open>One iteration of the loop that adds the sections starting at the opening bound:
  the section is reference counted in the overlapping list.\<close>

definition AddOverlapping :: "FSectionEvaluationData \<Rightarrow> 'a FMovieSceneSegmentCompiler \<Rightarrow> 'a FMovieSceneSegmentCompiler" where
  "AddOverlapping e st =
     (case IndexOfByKey (OverlappingSections st) e of
        None \<Rightarrow> st\<lparr>OverlappingSections := OverlappingSections st @ [e],
                    OverlappingRefCounts := OverlappingRefCounts st @ [1]\<rparr>
      | Some i \<Rightarrow> st\<lparr>OverlappingRefCounts :=
                        (OverlappingRefCounts st)[i := OverlappingRefCounts st ! i + 1]\<rparr>)"

text \<open>One iteration of the loop that removes the sections finishing at the closing
  bound. A section that is not in the overlapping list fails the ensure and is skipped.\<close>

definition RemoveOverlapping :: "FSectionEvaluationData \<Rightarrow> 'a FMovieSceneSegmentCompiler \<Rightarrow> 'a FMovieSceneSegmentCompiler" where
  "RemoveOverlapping e st =
     (case IndexOfByKey (OverlappingSections st) e of
        None \<Rightarrow> st
      | Some i \<Rightarrow>
          (if OverlappingRefCounts st ! i - 1 = 0
           then st\<lparr>OverlappingSections := RemoveAtSwap (OverlappingSections st) i,
                   OverlappingRefCounts :=
                     RemoveAtSwap ((OverlappingRefCounts st)[i := OverlappingRefCounts st ! i - 1]) i\<rparr>
           else st\<lparr>OverlappingRefCounts :=
                     (OverlappingRefCounts st)[i := OverlappingRefCounts st ! i - 1]\<rparr>))"

text \<open>The inner loop of CloseCompletedSegments: remove all sections that finish on the
  closing bound.\<close>

function CloseFinished :: "'a TRangeBound \<Rightarrow> 'a FMovieSceneSegmentCompiler \<Rightarrow> 'a FMovieSceneSegmentCompiler" where
  "CloseFinished ClosingBound st =
     (if UpperReadIndex st < length (UpperBounds st) \<and>
         Bound (UpperBounds st ! UpperReadIndex st) = ClosingBound
      then CloseFinished ClosingBound
             ((RemoveOverlapping (BoundEvalData (UpperBounds st ! UpperReadIndex st)) st)
                \<lparr>UpperReadIndex := UpperReadIndex st + 1\<rparr>)
      else st)"
  by pat_completeness auto

lemma RemoveOverlapping_fields [simp]:
  "UpperBounds (RemoveOverlapping e st) = UpperBounds st"
  "LowerBounds (RemoveOverlapping e st) = LowerBounds st"
  "UpperReadIndex (RemoveOverlapping e st) = UpperReadIndex st"
  "LowerReadIndex (RemoveOverlapping e st) = LowerReadIndex st"
  "CompiledSegments (RemoveOverlapping e st) = CompiledSegments st"
  by (simp_all add: RemoveOverlapping_def split: option.split)

lemma AddOverlapping_fields [simp]:
  "UpperBounds (AddOverlapping e st) = UpperBounds st"
  "LowerBounds (AddOverlapping e st) = LowerBounds st"
  "UpperReadIndex (AddOverlapping e st) = UpperReadIndex st"
  "LowerReadIndex (AddOverlapping e st) = LowerReadIndex st"
  "CompiledSegments (AddOverlapping e st) = CompiledSegments st"
  by (simp_all add: AddOverlapping_def split: option.split)

termination CloseFinished
  by (relation "measure (\<lambda>(cb, st). length (UpperBounds st) - UpperReadIndex st)") auto

declare CloseFinished.simps [simp del]

lemma CloseFinished_stop:
  "\<not> (UpperReadIndex st < length (UpperBounds st) \<and>
      Bound (UpperBounds st ! UpperReadIndex st) = cb) \<Longrightarrow> CloseFinished cb st = st"
  by (subst CloseFinished.simps) auto

lemma CloseFinished_step:
  "UpperReadIndex st < length (UpperBounds st) \<Longrightarrow>
   Bound (UpperBounds st ! UpperReadIndex st) = cb \<Longrightarrow>
   CloseFinished cb st =
     CloseFinished cb ((RemoveOverlapping (BoundEvalData (UpperBounds st ! UpperReadIndex st)) st)
                          \<lparr>UpperReadIndex := UpperReadIndex st + 1\<rparr>)"
  by (subst CloseFinished.simps) simp

lemma CloseFinished_keeps:
  "UpperBounds (CloseFinished cb st) = UpperBounds st \<and>
   LowerBounds (CloseFinished cb st) = LowerBounds st \<and>
   LowerReadIndex (CloseFinished cb st) = LowerReadIndex st \<and>
   CompiledSegments (CloseFinished cb st) = CompiledSegments st"
proof (induction cb st rule: CloseFinished.induct)
  case (1 cb st)
  show ?case
  proof (cases "UpperReadIndex st < length (UpperBounds st) \<and>
                Bound (UpperBounds st ! UpperReadIndex st) = cb")
    case True
    with 1 show ?thesis by (simp add: CloseFinished_step)
  next
    case False
    then show ?thesis by (simp add: CloseFinished_stop)
  qed
qed

lemma CloseFinished_fields [simp]:
  "UpperBounds (CloseFinished cb st) = UpperBounds st"
  "LowerBounds (CloseFinished cb st) = LowerBounds st"
  "LowerReadIndex (CloseFinished cb st) = LowerReadIndex st"
  "CompiledSegments (CloseFinished cb st) = CompiledSegments st"
  using CloseFinished_keeps [of cb st] by simp_all

lemma CloseFinished_index_mono:
  "UpperReadIndex st \<le> length (UpperBounds st) \<Longrightarrow>
   UpperReadIndex st \<le> UpperReadIndex (CloseFinished cb st) \<and>
   UpperReadIndex (CloseFinished cb st) \<le> length (UpperBounds st)"
proof (induction cb st rule: CloseFinished.induct)
  case (1 cb st)
  show ?case
  proof (cases "UpperReadIndex st < length (UpperBounds st) \<and>
                Bound (UpperBounds st ! UpperReadIndex st) = cb")
    case True
    with 1 show ?thesis by (simp add: CloseFinished_step)
  next
    case False
    with 1 show ?thesis by (simp add: CloseFinished_stop)
  qed
qed

lemma CloseFinished_advances:
  assumes "UpperReadIndex st < length (UpperBounds st)"
    and "Bound (UpperBounds st ! UpperReadIndex st) = cb"
  shows "UpperReadIndex st < UpperReadIndex (CloseFinished cb st) \<and>
         UpperReadIndex (CloseFinished cb st) \<le> length (UpperBounds st)"
  using assms
    CloseFinished_index_mono [of "(RemoveOverlapping (BoundEvalData (UpperBounds st ! UpperReadIndex st)) st)
                          \<lparr>UpperReadIndex := UpperReadIndex st + 1\<rparr>" cb]
  by (simp add: CloseFinished_step)

text \<open>The last compiled segment with a new range.\<close>

definition SetLastRange :: "'a TRange \<Rightarrow> 'a FMovieSceneSegment list \<Rightarrow> 'a FMovieSceneSegment list" where
  "SetLastRange r segs = butlast segs @ [(last segs)\<lparr>Range' := r\<rparr>]"

text \<open>CloseCompletedSegments, the test at the head of the loop: is there a non-empty
  range between the next lower bound and the next upper bound?\<close>

definition bHasOpeningRange :: "'a::linorder FMovieSceneSegmentCompiler \<Rightarrow> bool" where
  "bHasOpeningRange st \<longleftrightarrow>
     LowerReadIndex st < length (LowerBounds st) \<and>
     \<not> IsEmpty (TRange (Bound (LowerBounds st ! LowerReadIndex st))
                         (Bound (UpperBounds st ! UpperReadIndex st)))"

text \<open>CloseCompletedSegments, the branch that returns: with sections still overlapping,
  the last segment ends where the next lower bound starts, or is removed if that leaves
  it empty.\<close>

definition CloseAtOpening :: "'a::linorder FMovieSceneSegmentCompiler \<Rightarrow> 'a FMovieSceneSegmentCompiler" where
  "CloseAtOpening st =
     (if OverlappingSections st \<noteq> [] then
        (let LastSegment = last (CompiledSegments st);
             ClosingBound = FlipInclusion (Bound (LowerBounds st ! LowerReadIndex st));
             NewRange = TRange (GetLowerBound (Range' LastSegment)) ClosingBound
         in if \<not> IsEmpty NewRange
            then st\<lparr>CompiledSegments := SetLastRange NewRange (CompiledSegments st)\<rparr>
            else st\<lparr>CompiledSegments := butlast (CompiledSegments st)\<rparr>)
      else st)"

text \<open>CloseCompletedSegments, the rest of the loop body: the last segment is closed at
  the next upper bound, the sections finishing there are removed, and a new segment is
  opened for the sections that are still active.\<close>

definition CloseAtUpper :: "'a::linorder FMovieSceneSegmentCompiler \<Rightarrow> 'a FMovieSceneSegmentCompiler" where
  "CloseAtUpper st =
     (let LastSegment = last (CompiledSegments st);
          ClosingBound = Bound (UpperBounds st ! UpperReadIndex st);
          st1 = st\<lparr>CompiledSegments :=
                    SetLastRange (TRange (GetLowerBound (Range' LastSegment)) ClosingBound)
                      (CompiledSegments st)\<rparr>;
          st2 = CloseFinished ClosingBound st1
      in if OverlappingSections st2 \<noteq> []
         then st2\<lparr>CompiledSegments := CompiledSegments st2 @
                 [\<lparr>Range' = TRange (FlipInclusion ClosingBound) Open,
                   Impls = OverlappingSections st2\<rparr>]\<rparr>
         else st2)"

lemma CloseAtUpper_fields [simp]:
  "UpperBounds (CloseAtUpper st) = UpperBounds st"
  "LowerBounds (CloseAtUpper st) = LowerBounds st"
  "LowerReadIndex (CloseAtUpper st) = LowerReadIndex st"
  by (simp_all add: CloseAtUpper_def Let_def)

lemma CloseAtUpper_advances:
  assumes "UpperReadIndex st < length (UpperBounds st)"
  shows "UpperReadIndex st < UpperReadIndex (CloseAtUpper st) \<and>
         UpperReadIndex (CloseAtUpper st) \<le> length (UpperBounds st)"
  using assms CloseFinished_advances [of
      "st\<lparr>CompiledSegments :=
            SetLastRange (TRange (GetLowerBound (Range' (last (CompiledSegments st))))
                                 (Bound (UpperBounds st ! UpperReadIndex st)))
              (CompiledSegments st)\<rparr>"
      "Bound (UpperBounds st ! UpperReadIndex st)"]
  by (simp add: CloseAtUpper_def Let_def)

text \<open>The loop of CloseCompletedSegments, entered when there is a compiled segment.\<close>

function CloseLoop :: "'a::linorder FMovieSceneSegmentCompiler \<Rightarrow> 'a FMovieSceneSegmentCompiler" where
  "CloseLoop st =
     (if UpperReadIndex st < length (UpperBounds st) then
        (if bHasOpeningRange st then CloseAtOpening st else CloseLoop (CloseAtUpper st))
      else st)"
  by pat_completeness auto
termination
proof (relation "measure (\<lambda>st. length (UpperBounds st) - UpperReadIndex st)", goal_cases)
  case 1
  show ?case by simp
next
  case (2 st)
  then have "UpperReadIndex st < UpperReadIndex (CloseAtUpper st)"
    and "UpperReadIndex (CloseAtUpper st) \<le> length (UpperBounds st)"
    using CloseAtUpper_advances [of st] by simp_all
  then show ?case by simp
qed

declare CloseLoop.simps [simp del]

definition CloseCompletedSegments :: "'a::linorder FMovieSceneSegmentCompiler \<Rightarrow> 'a FMovieSceneSegmentCompiler" where
  "CloseCompletedSegments st = (if CompiledSegments st = [] then st else CloseLoop st)"

text \<open>The do-while loop of Compile: add the sections starting at exactly the opening
  bound to the overlapping list.\<close>

function OpenStarting :: "'a TRangeBound \<Rightarrow> 'a FMovieSceneSegmentCompiler \<Rightarrow> 'a FMovieSceneSegmentCompiler" where
  "OpenStarting OpeningBound st =
     (let st1 = (AddOverlapping (BoundEvalData (LowerBounds st ! LowerReadIndex st)) st)
                  \<lparr>LowerReadIndex := LowerReadIndex st + 1\<rparr>
      in if LowerReadIndex st1 < length (LowerBounds st1) \<and>
            Bound (LowerBounds st1 ! LowerReadIndex st1) = OpeningBound
         then OpenStarting OpeningBound st1
         else st1)"
  by pat_completeness auto
termination
  by (relation "measure (\<lambda>(ob, st). length (LowerBounds st) - LowerReadIndex st)") auto

declare OpenStarting.simps [simp del]

lemma OpenStarting_keeps:
  "UpperBounds (OpenStarting ob st) = UpperBounds st \<and>
   LowerBounds (OpenStarting ob st) = LowerBounds st \<and>
   UpperReadIndex (OpenStarting ob st) = UpperReadIndex st \<and>
   CompiledSegments (OpenStarting ob st) = CompiledSegments st \<and>
   LowerReadIndex st < LowerReadIndex (OpenStarting ob st) \<and>
   (LowerReadIndex st < length (LowerBounds st) \<longrightarrow>
      LowerReadIndex (OpenStarting ob st) \<le> length (LowerBounds st))"
proof (induction ob st rule: OpenStarting.induct)
  case (1 ob st)
  let ?st1 = "(AddOverlapping (BoundEvalData (LowerBounds st ! LowerReadIndex st)) st)
                  \<lparr>LowerReadIndex := LowerReadIndex st + 1\<rparr>"
  show ?case
  proof (cases "LowerReadIndex ?st1 < length (LowerBounds ?st1) \<and>
                Bound (LowerBounds ?st1 ! LowerReadIndex ?st1) = ob")
    case True
    with 1 [OF refl True] show ?thesis
      by (subst (1 2 3 4 5 6) OpenStarting.simps) (simp add: Let_def)
  next
    case False
    then show ?thesis
      by (subst (1 2 3 4 5 6) OpenStarting.simps) (auto simp add: Let_def)
  qed
qed

lemma OpenStarting_fields [simp]:
  "UpperBounds (OpenStarting ob st) = UpperBounds st"
  "LowerBounds (OpenStarting ob st) = LowerBounds st"
  "UpperReadIndex (OpenStarting ob st) = UpperReadIndex st"
  "CompiledSegments (OpenStarting ob st) = CompiledSegments st"
  using OpenStarting_keeps [of ob st] by simp_all

lemma CloseAtOpening_fields [simp]:
  "UpperBounds (CloseAtOpening st) = UpperBounds st"
  "LowerBounds (CloseAtOpening st) = LowerBounds st"
  "LowerReadIndex (CloseAtOpening st) = LowerReadIndex st"
  "UpperReadIndex (CloseAtOpening st) = UpperReadIndex st"
  "OverlappingSections (CloseAtOpening st) = OverlappingSections st"
  "OverlappingRefCounts (CloseAtOpening st) = OverlappingRefCounts st"
  by (simp_all add: CloseAtOpening_def Let_def)

lemma CloseLoop_keeps:
  "UpperBounds (CloseLoop st) = UpperBounds st \<and>
   LowerBounds (CloseLoop st) = LowerBounds st \<and>
   LowerReadIndex (CloseLoop st) = LowerReadIndex st"
proof (induction st rule: CloseLoop.induct)
  case (1 st)
  then show ?case by (subst (1 2 3) CloseLoop.simps) simp
qed

lemma CloseCompletedSegments_fields [simp]:
  "UpperBounds (CloseCompletedSegments st) = UpperBounds st"
  "LowerBounds (CloseCompletedSegments st) = LowerBounds st"
  "LowerReadIndex (CloseCompletedSegments st) = LowerReadIndex st"
  using CloseLoop_keeps [of st] by (simp_all add: CloseCompletedSegments_def)

text \<open>The rest of the body of the loop of Compile: the sections starting at the next
  lower bound are added and a segment is opened for the overlapping sections.\<close>

definition OpenAtLower :: "'a FMovieSceneSegmentCompiler \<Rightarrow> 'a FMovieSceneSegmentCompiler" where
  "OpenAtLower st =
     (let OpeningBound = Bound (LowerBounds st ! LowerReadIndex st);
          st1 = OpenStarting OpeningBound st
      in st1\<lparr>CompiledSegments := CompiledSegments st1 @
               [\<lparr>Range' = TRange OpeningBound Open, Impls = OverlappingSections st1\<rparr>]\<rparr>)"

lemma OpenAtLower_fields [simp]:
  "UpperBounds (OpenAtLower st) = UpperBounds st"
  "LowerBounds (OpenAtLower st) = LowerBounds st"
  "UpperReadIndex (OpenAtLower st) = UpperReadIndex st"
  by (simp_all add: OpenAtLower_def Let_def)

lemma OpenAtLower_advances:
  "LowerReadIndex st < LowerReadIndex (OpenAtLower st)"
  "LowerReadIndex st < length (LowerBounds st) \<Longrightarrow>
     LowerReadIndex (OpenAtLower st) \<le> length (LowerBounds st)"
  using OpenStarting_keeps [of "Bound (LowerBounds st ! LowerReadIndex st)" st]
  by (simp_all add: OpenAtLower_def Let_def)

text \<open>The while loop of Compile.\<close>

function CompileLoop :: "'a::linorder FMovieSceneSegmentCompiler \<Rightarrow> 'a FMovieSceneSegmentCompiler" where
  "CompileLoop st =
     (if LowerReadIndex st < length (LowerBounds st)
      then CompileLoop (OpenAtLower (CloseCompletedSegments st))
      else st)"
  by pat_completeness auto
termination
proof (relation "measure (\<lambda>st. length (LowerBounds st) - LowerReadIndex st)", goal_cases)
  case 1
  show ?case by simp
next
  case (2 st)
  then have "LowerReadIndex (CloseCompletedSegments st) < LowerReadIndex (OpenAtLower (CloseCompletedSegments st))"
    and "LowerReadIndex (OpenAtLower (CloseCompletedSegments st)) \<le> length (LowerBounds st)"
    using OpenAtLower_advances [of "CloseCompletedSegments st"] by simp_all
  then show ?case by simp
qed

declare CompileLoop.simps [simp del]

text \<open>The buffers after the reset and the population of the bound lists: one lower
  and one upper bound for every section whose range is not empty, each list sorted.\<close>

definition NonEmptySections :: "'a::linorder FMovieSceneSectionData list \<Rightarrow> 'a FMovieSceneSectionData list" where
  "NonEmptySections Data = filter (\<lambda>Section. \<not> IsEmpty (Bounds Section)) Data"

definition InitialBuffers :: "'a::linorder FMovieSceneSectionData list \<Rightarrow> 'a FMovieSceneSegmentCompiler" where
  "InitialBuffers Data =
     \<lparr>OverlappingSections = [],
      OverlappingRefCounts = [],
      LowerBounds =
        Sort (\<lambda>A B. MinLower (Bound A) (Bound B) = Bound A)
          (map (\<lambda>Section. \<lparr>BoundEvalData = EvalData Section, Bound = GetLowerBound (Bounds Section)\<rparr>)
               (NonEmptySections Data)),
      UpperBounds =
        Sort (\<lambda>A B. MinUpper (Bound A) (Bound B) = Bound A)
          (map (\<lambda>Section. \<lparr>BoundEvalData = EvalData Section, Bound = GetUpperBound (Bounds Section)\<rparr>)
               (NonEmptySections Data)),
      CompiledSegments = [],
      LowerReadIndex = 0,
      UpperReadIndex = 0\<rparr>"

text \<open>The buffers at the end of the sweep, where Compile checks that no section is
  left overlapping.\<close>

definition Sweep :: "'a::linorder FMovieSceneSectionData list \<Rightarrow> 'a FMovieSceneSegmentCompiler" where
  "Sweep Data = CloseCompletedSegments (CompileLoop (InitialBuffers Data))"

section \<open>Compiler rules\<close>

text \<open>The customisation points of FMovieSceneSegmentCompilerRules are virtual functions
  whose implementations are supplied by the caller; they are parameters here. BlendSegment
  and PostProcessSegments return what they leave in the object they are given.\<close>

record 'a FMovieSceneSegmentCompilerRules =
  BlendSegment :: "'a FMovieSceneSegment \<Rightarrow> 'a FMovieSceneSectionData list \<Rightarrow> 'a FMovieSceneSegment"
  InsertEmptySpace :: "'a TRange \<Rightarrow> 'a FMovieSceneSegment option \<Rightarrow> 'a FMovieSceneSegment option
                        \<Rightarrow> 'a FMovieSceneSegment option"
  PostProcessSegments :: "'a FMovieSceneSegment list \<Rightarrow> 'a FMovieSceneSectionData list \<Rightarrow> 'a FMovieSceneSegment list"
  AllowEmptySegments :: bool

text \<open>The calls made to the rules, in the order they are made, each with its arguments.\<close>

datatype 'a RulesCall =
    CallBlendSegment "'a FMovieSceneSegment"
  | CallInsertEmptySpace "'a TRange" "'a FMovieSceneSegment option" "'a FMovieSceneSegment option"
  | CallPostProcessSegments "'a FMovieSceneSegment list"

definition InsertAt :: "'b list \<Rightarrow> nat \<Rightarrow> 'b \<Rightarrow> 'b list" where
  "InsertAt xs i x = take i xs @ x # drop i xs"

text \<open>The segments before and at position Index, where there are such.\<close>

definition PreviousSegment :: "'a FMovieSceneSegment list \<Rightarrow> nat \<Rightarrow> 'a FMovieSceneSegment option" where
  "PreviousSegment Segs Index =
     (if 0 < Index \<and> Index - 1 < length Segs then Some (Segs ! (Index - 1)) else None)"

definition NextSegment :: "'a FMovieSceneSegment list \<Rightarrow> nat \<Rightarrow> 'a FMovieSceneSegment option" where
  "NextSegment Segs Index = (if Index < length Segs then Some (Segs ! Index) else None)"

text \<open>The range of the empty space between two segments.\<close>

definition EmptyRange :: "'a FMovieSceneSegment option \<Rightarrow> 'a FMovieSceneSegment option \<Rightarrow> 'a TRange" where
  "EmptyRange Previous Next =
     TRange (case Previous of Some Segment \<Rightarrow> FlipInclusion (GetUpperBound (Range' Segment)) | None \<Rightarrow> Open)
            (case Next of Some Segment \<Rightarrow> FlipInclusion (GetLowerBound (Range' Segment)) | None \<Rightarrow> Open)"

text \<open>InsertSegment returns whether a segment was inserted, the segment list and the
  calls it made to the rules.\<close>

definition InsertSegment ::
  "'a::linorder FMovieSceneSegmentCompilerRules \<Rightarrow> 'a FMovieSceneSegment list \<Rightarrow> nat \<Rightarrow>
   'a FMovieSceneSectionData list \<Rightarrow> bool \<times> 'a FMovieSceneSegment list \<times> 'a RulesCall list" where
  "InsertSegment Rules Segs Index SourceData =
     (let Previous = PreviousSegment Segs Index;
          Next = NextSegment Segs Index;
          Empty = EmptyRange Previous Next
      in if IsEmpty Empty then (False, Segs, [])
         else
           (case InsertEmptySpace Rules Empty Previous Next of
              None \<Rightarrow> (False, Segs, [CallInsertEmptySpace Empty Previous Next])
            | Some NewSeg \<Rightarrow>
                (let Corrected = (if \<not> Contains Empty (Range' NewSeg)
                                  then NewSeg\<lparr>Range' := Intersection (Range' NewSeg) Empty\<rparr>
                                  else NewSeg)
                 in (True, InsertAt Segs Index (BlendSegment Rules Corrected SourceData),
                     [CallInsertEmptySpace Empty Previous Next,
                      CallBlendSegment Corrected]))))"

lemma InsertSegment_length:
  "length (fst (snd (InsertSegment Rules Segs Index SourceData))) =
     (if fst (InsertSegment Rules Segs Index SourceData)
      then length Segs + 1 else length Segs)"
  by (auto simp add: InsertSegment_def Let_def InsertAt_def split: if_splits option.splits)

text \<open>The loop of ProcessSegments that adds segments in between the segments.\<close>

function InsertBetween ::
  "'a::linorder FMovieSceneSegmentCompilerRules \<Rightarrow> 'a FMovieSceneSegment list \<Rightarrow> nat \<Rightarrow>
   'a FMovieSceneSectionData list \<Rightarrow> 'a FMovieSceneSegment list \<times> 'a RulesCall list" where
  "InsertBetween Rules Segs Index SourceData =
     (if Index < length Segs then
        (let r = InsertSegment Rules Segs Index SourceData;
             r' = InsertBetween Rules (fst (snd r)) (if fst r then Index + 1 + 1 else Index + 1) SourceData
         in (fst r', snd (snd r) @ snd r'))
      else (Segs, []))"
  by pat_completeness auto
termination
proof (relation "measure (\<lambda>(Rules, Segs, Index, SourceData). length Segs - Index)", goal_cases)
  case 1
  show ?case by simp
next
  case (2 Rules Segs Index SourceData r)
  then show ?case
    using InsertSegment_length [of Rules Segs Index SourceData]
    by (simp split: if_splits)
qed

declare InsertBetween.simps [simp del]

definition ProcessSegments ::
  "'a::linorder FMovieSceneSegmentCompilerRules \<Rightarrow> 'a FMovieSceneSegment list \<Rightarrow>
   'a FMovieSceneSectionData list \<Rightarrow> 'a FMovieSceneSegment list \<times> 'a RulesCall list" where
  "ProcessSegments Rules Segs SourceData =
     (if Segs = [] then (Segs, [])
      else
        (let Blended = map (\<lambda>Segment. BlendSegment Rules Segment SourceData) Segs;
             calls0 = map CallBlendSegment Segs;
             (segs1, calls1) =
               (if \<not> IsOpen (GetLowerBound (Range' (Blended ! 0)))
                then (case InsertSegment Rules Blended 0 SourceData of (ins, segs, calls) \<Rightarrow> (segs, calls))
                else (Blended, []));
             (segs2, calls2) = InsertBetween Rules segs1 1 SourceData;
             (segs3, calls3) =
               (if \<not> IsOpen (GetUpperBound (Range' (last segs2)))
                then (case InsertSegment Rules segs2 (length segs2) SourceData of (ins, segs, calls) \<Rightarrow> (segs, calls))
                else (segs2, []))
         in (PostProcessSegments Rules segs3 SourceData,
             calls0 @ calls1 @ calls2 @ calls3 @ [CallPostProcessSegments segs3])))"

section \<open>Compile\<close>

definition Compile ::
  "'a::linorder FMovieSceneSectionData list \<Rightarrow> 'a FMovieSceneSegmentCompilerRules option \<Rightarrow>
   'a FMovieSceneSegment list" where
  "Compile Data Rules =
     (let CompiledSegments = CompiledSegments (Sweep Data)
      in case Rules of
           None \<Rightarrow> CompiledSegments
         | Some R \<Rightarrow> fst (ProcessSegments R CompiledSegments Data))"

section \<open>The track compiler\<close>

text \<open>The attributes of a section that FRows reads through the accessors of
  UMovieSceneSection. The row index is not negative.\<close>

record 'a UMovieSceneSection =
  IsActive :: bool
  GetRowIndex :: nat
  IsInfinite :: bool
  GetRange :: "'a TRange"
  GetPreRollTime :: 'a
  GetPostRollTime :: 'a
  GetOverlapPriority :: int

record 'a FMovieSceneSectionRowData = "'a FMovieSceneSectionData" +
  ActualSectionIndex :: int

record 'a FRow =
  Sections :: "'a FMovieSceneSectionRowData list"
  CompileRules :: "'a FMovieSceneSegmentCompilerRules option"

text \<open>The value of a closed bound.\<close>

fun GetValue :: "'a TRangeBound \<Rightarrow> 'a" where
  "GetValue (Inclusive v) = v"
| "GetValue (Exclusive v) = v"

definition AddRowData :: "nat \<Rightarrow> 'a FMovieSceneSectionRowData \<Rightarrow> 'a FRow list \<Rightarrow> 'a FRow list" where
  "AddRowData RowIndex d Rows = Rows[RowIndex := (Rows ! RowIndex)\<lparr>Sections := Sections (Rows ! RowIndex) @ [d]\<rparr>]"

text \<open>The rows once the row of the index exists: default rows are added up to it.\<close>

definition EnsureRow :: "nat \<Rightarrow> 'a FRow list \<Rightarrow> 'a FRow list" where
  "EnsureRow RowIndex Rows =
     (if RowIndex < length Rows then Rows
      else Rows @ replicate (RowIndex - length Rows + 1) \<lparr>Sections = [], CompileRules = None\<rparr>)"

text \<open>The body of the loop of the constructor of FRows, for the section at position
  Index; a null section is None. Modelled from the spec: a time value given where a
  bound is expected stands for the inclusive bound at that value, so that the pre-roll
  range ends immediately before the lower bound value and the post-roll range starts
  immediately after the upper bound value.\<close>

definition AddSection ::
  "nat \<Rightarrow> 'a::{linorder,zero,plus,minus} UMovieSceneSection option \<Rightarrow> 'a FRow list \<Rightarrow> 'a FRow list" where
  "AddSection Index SectionPtr Rows =
     (case SectionPtr of
        None \<Rightarrow> Rows
      | Some Section \<Rightarrow>
          if \<not> IsActive Section then Rows
          else
            (let RowIndex = GetRowIndex Section;
                 Rows1 = EnsureRow RowIndex Rows;
                 Range = (if IsInfinite Section then TRange Open Open else GetRange Section);
                 Eval = \<lparr>ImplIndex = int (length (Sections (Rows1 ! RowIndex))), Flags = NoFlags\<rparr>;
                 Rows2 = AddRowData RowIndex
                           \<lparr>Bounds = Range, EvalData = Eval,
                            Priority = GetOverlapPriority Section, ActualSectionIndex = int Index\<rparr> Rows1;
                 Rows3 = (if \<not> IsOpen (GetLowerBound Range) \<and> 0 < GetPreRollTime Section
                          then AddRowData RowIndex
                                 \<lparr>Bounds = TRange (Inclusive (GetValue (GetLowerBound Range) - GetPreRollTime Section))
                                                  (FlipInclusion (Inclusive (GetValue (GetLowerBound Range)))),
                                  EvalData = Eval\<lparr>Flags := PreRoll\<rparr>,
                                  Priority = GetOverlapPriority Section, ActualSectionIndex = int Index\<rparr> Rows2
                          else Rows2)
             in if \<not> IsOpen (GetUpperBound Range) \<and> 0 < GetPostRollTime Section
                then AddRowData RowIndex
                       \<lparr>Bounds = TRange (FlipInclusion (Inclusive (GetValue (GetUpperBound Range))))
                                        (Inclusive (GetValue (GetUpperBound Range) + GetPostRollTime Section)),
                        EvalData = Eval\<lparr>Flags := PostRoll\<rparr>,
                        Priority = GetOverlapPriority Section, ActualSectionIndex = int Index\<rparr> Rows3
                else Rows3))"

text \<open>The first loop of the constructor, over the sections from position Index on.\<close>

fun AddSections ::
  "nat \<Rightarrow> 'a::{linorder,zero,plus,minus} UMovieSceneSection option list \<Rightarrow> 'a FRow list \<Rightarrow> 'a FRow list" where
  "AddSections Index [] Rows = Rows"
| "AddSections Index (SectionPtr # rest) Rows = AddSections (Index + 1) rest (AddSection Index SectionPtr Rows)"

text \<open>The constructor of FRows: the rows that have sections, each with the compile rules.\<close>

definition FRows ::
  "'a::{linorder,zero,plus,minus} UMovieSceneSection option list \<Rightarrow>
   'a FMovieSceneSegmentCompilerRules option \<Rightarrow> 'a FRow list" where
  "FRows SectionList Rules =
     map (\<lambda>Row. Row\<lparr>CompileRules := Rules\<rparr>)
       (filter (\<lambda>Row. Sections Row \<noteq> []) (AddSections 0 SectionList []))"

text \<open>The track compile data gathered from the rows: the look-up table from the index
  in the track compile data to the actual section index, and the track compile data.\<close>

record 'a TrackData =
  SourceTrackDataToActualIndex :: "int list"
  TrackCompileData :: "'a FMovieSceneSectionData list"

text \<open>An index into an array outside its bounds fails the range check of the array: the
  result is None.\<close>

definition At :: "'b list \<Rightarrow> int \<Rightarrow> 'b option" where
  "At xs i = (if 0 \<le> i \<and> nat i < length xs then Some (xs ! nat i) else None)"

text \<open>The innermost loop of the compilation of the rows, over the evaluation data of a
  row segment.\<close>

fun GatherImpls ::
  "'a FRow \<Rightarrow> int \<Rightarrow> 'a TRange \<Rightarrow> FSectionEvaluationData list \<Rightarrow> 'a TrackData \<Rightarrow> 'a TrackData option" where
  "GatherImpls Row Prio SegmentRange [] td = Some td"
| "GatherImpls Row Prio SegmentRange (Eval # rest) td =
     (case At (Sections Row) (ImplIndex Eval) of
        None \<Rightarrow> None
      | Some RowData \<Rightarrow>
          GatherImpls Row Prio SegmentRange rest
            \<lparr>SourceTrackDataToActualIndex =
               SourceTrackDataToActualIndex td @ [ActualSectionIndex RowData],
             TrackCompileData =
               TrackCompileData td @
                 [\<lparr>Bounds = SegmentRange,
                   EvalData = Eval\<lparr>ImplIndex := int (length (TrackCompileData td))\<rparr>,
                   Priority = Prio\<rparr>]\<rparr>)"

fun GatherSegments ::
  "'a FRow \<Rightarrow> int \<Rightarrow> 'a FMovieSceneSegment list \<Rightarrow> 'a TrackData \<Rightarrow> 'a TrackData option" where
  "GatherSegments Row Prio [] td = Some td"
| "GatherSegments Row Prio (Segment # rest) td =
     (case GatherImpls Row Prio (Range' Segment) (Impls Segment) td of
        None \<Rightarrow> None
      | Some td' \<Rightarrow> GatherSegments Row Prio rest td')"

text \<open>The loop that compiles each row, over the rows from position RowIndex on; NumRows
  is the number of all rows.\<close>

fun CompileRows ::
  "nat \<Rightarrow> nat \<Rightarrow> 'a::linorder FRow list \<Rightarrow> 'a TrackData \<Rightarrow> 'a TrackData option" where
  "CompileRows NumRows RowIndex [] td = Some td"
| "CompileRows NumRows RowIndex (Row # rest) td =
     (if Sections Row = [] then CompileRows NumRows (RowIndex + 1) rest td
      else
        (let RowSegments = Compile (map FMovieSceneSectionData.truncate (Sections Row)) (CompileRules Row);
             Prio = int NumRows - int RowIndex
         in case GatherSegments Row Prio RowSegments td of
              None \<Rightarrow> None
            | Some td' \<Rightarrow> CompileRows NumRows (RowIndex + 1) rest td'))"

text \<open>The remapping of the evaluation data of a track segment to the actual section
  indices.\<close>

fun RemapImpls :: "int list \<Rightarrow> FSectionEvaluationData list \<Rightarrow> FSectionEvaluationData list option" where
  "RemapImpls lut [] = Some []"
| "RemapImpls lut (SectionEvalData # rest) =
     (case At lut (ImplIndex SectionEvalData) of
        None \<Rightarrow> None
      | Some ActualIndex \<Rightarrow>
          (case RemapImpls lut rest of
             None \<Rightarrow> None
           | Some rest' \<Rightarrow> Some (SectionEvalData\<lparr>ImplIndex := ActualIndex\<rparr> # rest')))"

text \<open>The body of the final loop of the track compiler for one remapped segment: the
  segment extends the last segment of the result or is added to the result.\<close>

definition AddToResult :: "'a::linorder FMovieSceneSegment \<Rightarrow> 'a FMovieSceneSegment list \<Rightarrow> 'a FMovieSceneSegment list" where
  "AddToResult Segment Result =
     (if Result \<noteq> [] \<and> Adjoins (Range' (last Result)) (Range' Segment) \<and>
         Impls (last Result) = Impls Segment
      then SetLastRange (Hull (Range' (last Result)) (Range' Segment)) Result
      else Result @ [Segment])"

text \<open>The final loop of the track compiler over the track segments.\<close>

fun MergeSegments ::
  "bool \<Rightarrow> int list \<Rightarrow> 'a::linorder FMovieSceneSegment list \<Rightarrow> 'a FMovieSceneSegment list \<Rightarrow>
   'a FMovieSceneSegment list option" where
  "MergeSegments bAllowEmpty lut [] Result = Some Result"
| "MergeSegments bAllowEmpty lut (Segment # rest) Result =
     (case RemapImpls lut (Impls Segment) of
        None \<Rightarrow> None
      | Some Remapped \<Rightarrow>
          MergeSegments bAllowEmpty lut rest
            (if Remapped \<noteq> [] \<or> bAllowEmpty
             then AddToResult (Segment\<lparr>Impls := Remapped\<rparr>) Result
             else Result))"

record 'a FMovieSceneTrackEvaluationField =
  Segments :: "'a FMovieSceneSegment list"

text \<open>FMovieSceneTrackCompiler::Compile.\<close>

definition TrackCompile ::
  "'a::linorder FRow list \<Rightarrow> 'a FMovieSceneSegmentCompilerRules option \<Rightarrow>
   'a FMovieSceneTrackEvaluationField option" where
  "TrackCompile Rows Rules =
     (case CompileRows (length Rows) 0 Rows \<lparr>SourceTrackDataToActualIndex = [], TrackCompileData = []\<rparr> of
        None \<Rightarrow> None
      | Some td \<Rightarrow>
          (let TrackSegments = Compile (TrackCompileData td) None;
               TrackSegments' = (case Rules of
                                   None \<Rightarrow> TrackSegments
                                 | Some R \<Rightarrow> fst (ProcessSegments R TrackSegments (TrackCompileData td)))
           in case MergeSegments (case Rules of None \<Rightarrow> False | Some R \<Rightarrow> AllowEmptySegments R)
                     (SourceTrackDataToActualIndex td) TrackSegments' [] of
                None \<Rightarrow> None
              | Some Result \<Rightarrow> Some \<lparr>Segments = Result\<rparr>))"

section \<open>Bounds as cuts of the time line\<close>

text \<open>A bound is a cut of the time line: below every time value, just before a value,
  just after a value, or above every time value. An inclusive lower bound and an
  exclusive upper bound at a value are the cut just before the value.\<close>

datatype 'a cut = NegInf | Cut 'a bool | PosInf

instantiation cut :: (linorder) linorder
begin

fun less_eq_cut :: "'a cut \<Rightarrow> 'a cut \<Rightarrow> bool" where
  "less_eq_cut NegInf c = True"
| "less_eq_cut (Cut v a) NegInf = False"
| "less_eq_cut (Cut v a) (Cut w b) = (v < w \<or> (v = w \<and> a \<le> b))"
| "less_eq_cut (Cut v a) PosInf = True"
| "less_eq_cut PosInf NegInf = False"
| "less_eq_cut PosInf (Cut w b) = False"
| "less_eq_cut PosInf PosInf = True"

definition less_cut :: "'a cut \<Rightarrow> 'a cut \<Rightarrow> bool" where
  "less_cut c d \<longleftrightarrow> c \<le> d \<and> \<not> d \<le> c"

instance
proof
  fix x y z :: "'a cut"
  show "(x < y) = (x \<le> y \<and> \<not> y \<le> x)" by (rule less_cut_def)
  show "x \<le> x" by (cases x) simp_all
  show "x \<le> y \<Longrightarrow> y \<le> z \<Longrightarrow> x \<le> z"
    by (cases x; cases y; cases z) auto
  show "x \<le> y \<Longrightarrow> y \<le> x \<Longrightarrow> x = y"
    by (cases x; cases y) auto
  show "x \<le> y \<or> y \<le> x"
    by (cases x; cases y) auto
qed

end

fun lcut :: "'a TRangeBound \<Rightarrow> 'a cut" where
  "lcut Open = NegInf"
| "lcut (Inclusive v) = Cut v False"
| "lcut (Exclusive v) = Cut v True"

fun ucut :: "'a TRangeBound \<Rightarrow> 'a cut" where
  "ucut Open = PosInf"
| "ucut (Inclusive v) = Cut v True"
| "ucut (Exclusive v) = Cut v False"

lemma less_cut_simps [simp]:
  "\<not> c < NegInf" "NegInf < Cut v a" "NegInf < PosInf" "Cut v a < PosInf" "\<not> PosInf < c"
  "Cut v a < Cut w b \<longleftrightarrow> v < w \<or> (v = w \<and> a < b)"
  by (cases c; auto simp add: less_cut_def)+

lemma lcut_inj [simp]: "lcut a = lcut b \<longleftrightarrow> a = b"
  by (cases a; cases b) auto

lemma ucut_inj [simp]: "ucut a = ucut b \<longleftrightarrow> a = b"
  by (cases a; cases b) auto

lemma lcut_not_PosInf [simp]: "lcut a \<noteq> PosInf" "lcut a < PosInf"
  by (cases a; simp)+

lemma ucut_not_NegInf [simp]: "ucut a \<noteq> NegInf" "NegInf < ucut a"
  by (cases a; simp)+

lemma MinLower_iff: "MinLower a b = a \<longleftrightarrow> lcut a \<le> lcut b"
  by (cases a; cases b) auto

lemma MinUpper_iff: "MinUpper a b = a \<longleftrightarrow> ucut a \<le> ucut b"
  by (cases a; cases b) auto

lemma MaxLower_iff: "MaxLower a b = a \<longleftrightarrow> lcut b \<le> lcut a"
  by (cases a; cases b) auto

lemma MaxUpper_iff: "MaxUpper a b = a \<longleftrightarrow> ucut b \<le> ucut a"
  by (cases a; cases b) auto

lemma lcut_MaxLower: "lcut (MaxLower a b) = max (lcut a) (lcut b)"
  by (cases a; cases b) (auto simp add: max_def)

lemma ucut_MinUpper: "ucut (MinUpper a b) = min (ucut a) (ucut b)"
  by (cases a; cases b) (auto simp add: min_def)

lemma lcut_MinLower: "lcut (MinLower a b) = min (lcut a) (lcut b)"
  by (cases a; cases b) (auto simp add: min_def)

lemma ucut_MaxUpper: "ucut (MaxUpper a b) = max (ucut a) (ucut b)"
  by (cases a; cases b) (auto simp add: max_def)

lemma IsEmpty_iff: "IsEmpty (TRange l u) \<longleftrightarrow> ucut u \<le> lcut l"
  by (cases l; cases u) auto

lemma lcut_Flip: "\<not> IsOpen u \<Longrightarrow> lcut (FlipInclusion u) = ucut u"
  by (cases u) auto

lemma ucut_Flip: "\<not> IsOpen l \<Longrightarrow> ucut (FlipInclusion l) = lcut l"
  by (cases l) auto

lemma IsOpen_iff: "IsOpen b \<longleftrightarrow> b = Open"
  by (cases b) auto

lemma ContainsElement_iff:
  "ContainsElement r p \<longleftrightarrow> lcut (GetLowerBound r) \<le> Cut p False \<and> Cut p True \<le> ucut (GetUpperBound r)"
  by (cases r; cases "GetLowerBound r"; cases "GetUpperBound r") (auto simp add: ContainsElement_def)

lemma Contains_iff:
  "Contains r s \<longleftrightarrow> lcut (GetLowerBound r) \<le> lcut (GetLowerBound s) \<and> ucut (GetUpperBound s) \<le> ucut (GetUpperBound r)"
  by (simp add: Contains_def MinLower_iff MaxUpper_iff)

section \<open>Rules processing\<close>

text \<open>Rules that fill every empty space they are offered with a segment without
  evaluation data, and rules that answer every empty space with a segment over the whole
  time line; neither changes the segments it is asked to blend.\<close>

definition FillRules :: "int FMovieSceneSegmentCompilerRules" where
  "FillRules =
     \<lparr>BlendSegment = (\<lambda>Segment SourceData. Segment),
      InsertEmptySpace = (\<lambda>Range PreviousSegment NextSegment. Some \<lparr>Range' = Range, Impls = []\<rparr>),
      PostProcessSegments = (\<lambda>Segs SourceData. Segs),
      AllowEmptySegments = True\<rparr>"

definition WideRules :: "int FMovieSceneSegmentCompilerRules" where
  "WideRules =
     \<lparr>BlendSegment = (\<lambda>Segment SourceData. Segment),
      InsertEmptySpace = (\<lambda>Range PreviousSegment NextSegment. Some \<lparr>Range' = TRange Open Open, Impls = []\<rparr>),
      PostProcessSegments = (\<lambda>Segs SourceData. Segs),
      AllowEmptySegments = True\<rparr>"

text \<open>Rules that leave every empty space empty and change nothing.\<close>

definition PassiveRules :: "int FMovieSceneSegmentCompilerRules" where
  "PassiveRules =
     \<lparr>BlendSegment = (\<lambda>Segment SourceData. Segment),
      InsertEmptySpace = (\<lambda>Range PreviousSegment NextSegment. None),
      PostProcessSegments = (\<lambda>Segs SourceData. Segs),
      AllowEmptySegments = False\<rparr>"

text \<open>A section over [a, b) with the evaluation data of index i.\<close>

definition SectionAt :: "int \<Rightarrow> int \<Rightarrow> int \<Rightarrow> int FMovieSceneSectionData" where
  "SectionAt a b i =
     \<lparr>Bounds = TRange (Inclusive a) (Exclusive b),
      EvalData = \<lparr>ImplIndex = i, Flags = NoFlags\<rparr>, Priority = 0\<rparr>"

lemma Sweep_no_sections:
  "NonEmptySections Data = [] \<Longrightarrow> CompiledSegments (Sweep Data) = []"
  by (simp add: Sweep_def InitialBuffers_def CompileLoop.simps CloseCompletedSegments_def)

text \<open>C10: ProcessSegments given an empty segment list returns it at once, without a
  call to the rules; so a compilation in which no section has a non-empty range stays
  empty whatever the rules would insert.\<close>

theorem ProcessSegments_empty:
  "ProcessSegments Rules [] SourceData = ([], []) \<and>
   (NonEmptySections Data = [] \<longrightarrow> Compile Data (Some Rules) = [])"
  by (simp add: ProcessSegments_def Compile_def Sweep_no_sections)

theorem ProcessSegments_empty_witness:
  "NonEmptySections [SectionAt 5 5 0] = [] \<and>
   Compile [SectionAt 5 5 0] (Some FillRules) = [] \<and>
   ProcessSegments FillRules [] [SectionAt 5 5 0] = ([], [])"
  using ProcessSegments_empty [of FillRules "[SectionAt 5 5 0]" "[SectionAt 5 5 0]"]
  by (simp add: NonEmptySections_def SectionAt_def)

lemma Intersection_within:
  "Contains y (Intersection x y)"
  by (simp add: Contains_iff Intersection_def lcut_MaxLower ucut_MinUpper)

lemma Contains_elements:
  "Contains r s \<Longrightarrow> ContainsElement s p \<Longrightarrow> ContainsElement r p"
  by (auto simp add: Contains_iff ContainsElement_iff)

text \<open>C8: when InsertEmptySpace returns a segment for a non-empty gap, InsertSegment
  keeps its range if the gap contains it and otherwise intersects the range with the gap,
  without failing, so that the gap contains the range of the segment; the segment is then
  given to BlendSegment, and what BlendSegment leaves is inserted at the index.
  BlendSegment is meant to work on the evaluation data of the segment: when it leaves
  ranges as they are, the gap contains the range of the segment as inserted.\<close>

theorem InsertSegment_clamps_to_gap:
  assumes "Gap = EmptyRange (PreviousSegment Segs Index) (NextSegment Segs Index)"
    and "\<not> IsEmpty Gap"
    and "InsertEmptySpace Rules Gap (PreviousSegment Segs Index) (NextSegment Segs Index) = Some NewSeg"
  shows "\<exists>Corrected Inserted.
           Impls Corrected = Impls NewSeg \<and>
           Range' Corrected =
             (if Contains Gap (Range' NewSeg) then Range' NewSeg
              else Intersection (Range' NewSeg) Gap) \<and>
           Contains Gap (Range' Corrected) \<and>
           (\<forall>p. ContainsElement (Range' Corrected) p \<longrightarrow> ContainsElement Gap p) \<and>
           Inserted = BlendSegment Rules Corrected SourceData \<and>
           InsertSegment Rules Segs Index SourceData =
             (True, InsertAt Segs Index Inserted,
              [CallInsertEmptySpace Gap (PreviousSegment Segs Index) (NextSegment Segs Index),
               CallBlendSegment Corrected]) \<and>
           (Index \<le> length Segs \<longrightarrow>
              fst (snd (InsertSegment Rules Segs Index SourceData)) ! Index = Inserted) \<and>
           ((\<forall>Segment. Range' (BlendSegment Rules Segment SourceData) = Range' Segment) \<longrightarrow>
              Contains Gap (Range' Inserted) \<and>
              (\<forall>p. ContainsElement (Range' Inserted) p \<longrightarrow> ContainsElement Gap p))"
proof -
  define Corrected where
    "Corrected = (if \<not> Contains Gap (Range' NewSeg)
                  then NewSeg\<lparr>Range' := Intersection (Range' NewSeg) Gap\<rparr> else NewSeg)"
  define Inserted where "Inserted = BlendSegment Rules Corrected SourceData"
  have impls: "Impls Corrected = Impls NewSeg"
    by (simp add: Corrected_def)
  have range: "Range' Corrected =
      (if Contains Gap (Range' NewSeg) then Range' NewSeg else Intersection (Range' NewSeg) Gap)"
    by (simp add: Corrected_def)
  have within: "Contains Gap (Range' Corrected)"
    by (simp add: range Intersection_within)
  then have corrected_points: "ContainsElement Gap p" if "ContainsElement (Range' Corrected) p" for p
    using that by (rule Contains_elements)
  have result: "InsertSegment Rules Segs Index SourceData =
      (True, InsertAt Segs Index Inserted,
       [CallInsertEmptySpace Gap (PreviousSegment Segs Index) (NextSegment Segs Index),
        CallBlendSegment Corrected])"
    using assms by (simp add: InsertSegment_def Let_def Corrected_def Inserted_def)
  have at_index: "fst (snd (InsertSegment Rules Segs Index SourceData)) ! Index = Inserted"
    if "Index \<le> length Segs"
    using that by (simp add: result InsertAt_def nth_append)
  have inserted: "Contains Gap (Range' Inserted)"
    if "\<forall>Segment. Range' (BlendSegment Rules Segment SourceData) = Range' Segment"
    using that within by (simp add: Inserted_def)
  have points: "ContainsElement Gap p"
    if "\<forall>Segment. Range' (BlendSegment Rules Segment SourceData) = Range' Segment"
      and "ContainsElement (Range' Inserted) p" for p
    using inserted [OF that(1)] that(2) by (rule Contains_elements)
  from impls range within corrected_points result at_index inserted points show ?thesis
    unfolding Inserted_def by blast
qed

theorem InsertSegment_clamps_to_gap_witness:
  "TRange Open (Exclusive 0) =
     EmptyRange (PreviousSegment [\<lparr>Range' = TRange (Inclusive 0) (Exclusive 5), Impls = []\<rparr>] 0)
                (NextSegment [\<lparr>Range' = TRange (Inclusive 0) (Exclusive 5), Impls = []\<rparr>] 0) \<and>
   \<not> IsEmpty (TRange Open (Exclusive (0::int))) \<and>
   InsertEmptySpace WideRules (TRange Open (Exclusive 0))
     (PreviousSegment [\<lparr>Range' = TRange (Inclusive 0) (Exclusive 5), Impls = []\<rparr>] 0)
     (NextSegment [\<lparr>Range' = TRange (Inclusive 0) (Exclusive 5), Impls = []\<rparr>] 0) =
       Some \<lparr>Range' = TRange Open Open, Impls = []\<rparr> \<and>
   Range' (BlendSegment WideRules \<lparr>Range' = TRange Open (Exclusive 0), Impls = []\<rparr> []) =
     TRange Open (Exclusive 0) \<and>
   InsertSegment WideRules [\<lparr>Range' = TRange (Inclusive 0) (Exclusive 5), Impls = []\<rparr>] 0 [] =
     (True,
      [\<lparr>Range' = TRange Open (Exclusive 0), Impls = []\<rparr>,
       \<lparr>Range' = TRange (Inclusive 0) (Exclusive 5), Impls = []\<rparr>],
      [CallInsertEmptySpace (TRange Open (Exclusive 0)) None
         (Some \<lparr>Range' = TRange (Inclusive 0) (Exclusive 5), Impls = []\<rparr>),
       CallBlendSegment \<lparr>Range' = TRange Open (Exclusive 0), Impls = []\<rparr>]) \<and>
   Contains (TRange Open (Exclusive 0))
     (Range' (fst (snd (InsertSegment WideRules
        [\<lparr>Range' = TRange (Inclusive 0) (Exclusive 5), Impls = []\<rparr>] 0 [])) ! 0))"
  using InsertSegment_clamps_to_gap [of "TRange Open (Exclusive 0)"
      "[\<lparr>Range' = TRange (Inclusive 0) (Exclusive 5), Impls = []\<rparr>]" 0
      WideRules "\<lparr>Range' = TRange Open Open, Impls = []\<rparr>" "[]"]
  by (simp add: WideRules_def EmptyRange_def PreviousSegment_def NextSegment_def
        Contains_def Intersection_def InsertAt_def InsertSegment_def Let_def)

subsection \<open>The calls to InsertEmptySpace\<close>

lemma InsertSegment_calls:
  assumes "CallInsertEmptySpace gap prev next \<in> set (snd (snd (InsertSegment Rules Segs Index SourceData)))"
  shows "\<not> IsEmpty gap \<and> gap = EmptyRange prev next \<and>
         prev = PreviousSegment Segs Index \<and> next = NextSegment Segs Index"
  using assms by (auto simp add: InsertSegment_def Let_def split: if_splits option.splits)

lemma InsertSegment_calls_gap:
  assumes "\<not> IsEmpty (EmptyRange (PreviousSegment Segs Index) (NextSegment Segs Index))"
  shows "CallInsertEmptySpace (EmptyRange (PreviousSegment Segs Index) (NextSegment Segs Index))
           (PreviousSegment Segs Index) (NextSegment Segs Index)
         \<in> set (snd (snd (InsertSegment Rules Segs Index SourceData)))"
  using assms by (auto simp add: InsertSegment_def Let_def split: option.splits)

lemma InsertSegment_shape:
  "(\<not> fst (InsertSegment Rules Segs Index SourceData) \<and>
      fst (snd (InsertSegment Rules Segs Index SourceData)) = Segs) \<or>
   (fst (InsertSegment Rules Segs Index SourceData) \<and>
      (\<exists>x. fst (snd (InsertSegment Rules Segs Index SourceData)) = InsertAt Segs Index x))"
  by (auto simp add: InsertSegment_def Let_def split: option.split)

lemma InsertSegment_cases:
  obtains "\<not> fst (InsertSegment Rules Segs Index SourceData)"
      "fst (snd (InsertSegment Rules Segs Index SourceData)) = Segs"
  | x where "fst (InsertSegment Rules Segs Index SourceData)"
      "fst (snd (InsertSegment Rules Segs Index SourceData)) = InsertAt Segs Index x"
  using InsertSegment_shape [of Rules Segs Index SourceData] by blast

lemma InsertBetween_unfold:
  "Index < length Segs \<Longrightarrow>
   InsertBetween Rules Segs Index SourceData =
     (fst (InsertBetween Rules (fst (snd (InsertSegment Rules Segs Index SourceData)))
             (if fst (InsertSegment Rules Segs Index SourceData) then Index + 1 + 1 else Index + 1) SourceData),
      snd (snd (InsertSegment Rules Segs Index SourceData)) @
      snd (InsertBetween Rules (fst (snd (InsertSegment Rules Segs Index SourceData)))
             (if fst (InsertSegment Rules Segs Index SourceData) then Index + 1 + 1 else Index + 1) SourceData))"
  by (subst InsertBetween.simps) (simp add: Let_def)

lemma InsertBetween_stop:
  "\<not> Index < length Segs \<Longrightarrow> InsertBetween Rules Segs Index SourceData = (Segs, [])"
  by (subst InsertBetween.simps) simp

lemma InsertBetween_length:
  "length Segs \<le> length (fst (InsertBetween Rules Segs Index SourceData))"
proof (induction Rules Segs Index SourceData rule: InsertBetween.induct)
  case (1 Rules Segs Index SourceData)
  show ?case
  proof (cases "Index < length Segs")
    case True
    from 1 [OF True refl] InsertSegment_length [of Rules Segs Index SourceData] True
    show ?thesis
      by (simp add: InsertBetween_unfold split: if_splits)
  next
    case False
    then show ?thesis by (simp add: InsertBetween_stop)
  qed
qed

lemma InsertBetween_calls:
  assumes "CallInsertEmptySpace gap prev next \<in> set (snd (InsertBetween Rules Segs Index SourceData))"
    and "0 < Index"
  shows "\<not> IsEmpty gap \<and> gap = EmptyRange prev next \<and> prev \<noteq> None"
  using assms
proof (induction Rules Segs Index SourceData rule: InsertBetween.induct)
  case (1 Rules Segs Index SourceData)
  show ?case
  proof (cases "Index < length Segs")
    case True
    from "1.prems"(1)
    have "CallInsertEmptySpace gap prev next \<in> set (snd (snd (InsertSegment Rules Segs Index SourceData))) \<or>
          CallInsertEmptySpace gap prev next \<in>
           set (snd (InsertBetween Rules (fst (snd (InsertSegment Rules Segs Index SourceData)))
             (if fst (InsertSegment Rules Segs Index SourceData) then Index + 1 + 1 else Index + 1) SourceData))"
      unfolding InsertBetween_unfold [OF True] by (simp only: snd_conv set_append Un_iff)
    then consider "CallInsertEmptySpace gap prev next \<in> set (snd (snd (InsertSegment Rules Segs Index SourceData)))"
      | "CallInsertEmptySpace gap prev next \<in>
           set (snd (InsertBetween Rules (fst (snd (InsertSegment Rules Segs Index SourceData)))
             (if fst (InsertSegment Rules Segs Index SourceData) then Index + 1 + 1 else Index + 1) SourceData))"
      by blast
    then show ?thesis
    proof cases
      case 1
      from True "1.prems"(2) have "PreviousSegment Segs Index \<noteq> None"
        by (simp add: PreviousSegment_def)
      with InsertSegment_calls [OF 1] show ?thesis
        by auto
    next
      case 2
      have "0 < (if fst (InsertSegment Rules Segs Index SourceData) then Index + 1 + 1 else Index + 1)"
        by simp
      from "1.IH" [OF True refl 2 this] show ?thesis .
    qed
  next
    case False
    with "1.prems" show ?thesis by (simp add: InsertBetween_stop)
  qed
qed

lemma InsertAt_nth_after: "i \<le> length xs \<Longrightarrow> i < k \<Longrightarrow> InsertAt xs i x ! k = xs ! (k - 1)"
  by (auto simp add: InsertAt_def nth_append nth_Cons' min_def)

lemma InsertAt_length [simp]: "length (InsertAt xs i x) = length xs + 1"
  by (simp add: InsertAt_def)

lemma InsertBetween_calls_gap:
  assumes "Index \<le> j" and "0 < Index" and "j < length Segs"
    and "\<not> IsEmpty (EmptyRange (Some (Segs ! (j - 1))) (Some (Segs ! j)))"
  shows "CallInsertEmptySpace (EmptyRange (Some (Segs ! (j - 1))) (Some (Segs ! j)))
           (Some (Segs ! (j - 1))) (Some (Segs ! j))
         \<in> set (snd (InsertBetween Rules Segs Index SourceData))"
  using assms
proof (induction Rules Segs Index SourceData arbitrary: j rule: InsertBetween.induct)
  case (1 Rules Segs Index SourceData)
  from "1.prems" have lt: "Index < length Segs" by simp
  show ?case
  proof (cases "j = Index")
    case True
    with "1.prems" have "PreviousSegment Segs Index = Some (Segs ! (j - 1))"
      and "NextSegment Segs Index = Some (Segs ! j)"
      by (simp_all add: PreviousSegment_def NextSegment_def)
    with InsertSegment_calls_gap [of Segs Index Rules SourceData] "1.prems"(4) lt
    show ?thesis by (simp add: InsertBetween_unfold)
  next
    case False
    with "1.prems" have j: "Index < j" by simp
    show ?thesis
    proof (cases rule: InsertSegment_cases [of Rules Segs Index SourceData])
      case 1
      with "1.IH" [OF lt refl, of j] j "1.prems" lt show ?thesis
        by (simp add: InsertBetween_unfold)
    next
      case (2 x)
      with "1.IH" [OF lt refl, of "j + 1"] j "1.prems" lt show ?thesis
        by (simp add: InsertBetween_unfold InsertAt_nth_after)
    qed
  qed
qed

lemma ProcessSegments_calls_unfold:
  fixes Rules :: "'a::linorder FMovieSceneSegmentCompilerRules"
    and Segs :: "'a FMovieSceneSegment list"
    and SourceData :: "'a FMovieSceneSectionData list"
  assumes "Segs \<noteq> []"
  defines "Blended \<equiv> map (\<lambda>Segment. BlendSegment Rules Segment SourceData) Segs"
  defines "r1 \<equiv> InsertSegment Rules Blended 0 SourceData"
  defines "segs1 \<equiv> (if \<not> IsOpen (GetLowerBound (Range' (Blended ! 0))) then fst (snd r1) else Blended)"
  defines "calls1 \<equiv> (if \<not> IsOpen (GetLowerBound (Range' (Blended ! 0))) then snd (snd r1) else [])"
  defines "r2 \<equiv> InsertBetween Rules segs1 1 SourceData"
  defines "r3 \<equiv> InsertSegment Rules (fst r2) (length (fst r2)) SourceData"
  defines "calls3 \<equiv> (if \<not> IsOpen (GetUpperBound (Range' (last (fst r2)))) then snd (snd r3) else [])"
  shows "set (snd (ProcessSegments Rules Segs SourceData)) =
           set (map CallBlendSegment Segs) \<union> set calls1 \<union> set (snd r2) \<union> set calls3 \<union>
           {CallPostProcessSegments
              (if \<not> IsOpen (GetUpperBound (Range' (last (fst r2)))) then fst (snd r3) else fst r2)}"
  using assms(1) unfolding ProcessSegments_def Let_def assms(2-)
  by (auto simp add: case_prod_beta split: if_splits)

text \<open>C3, as the code has it: in the rules processing of a non-empty segment list,
  every call of InsertEmptySpace is for a non-empty range, the space between the previous
  and the next segment, of which there is at least one. That is the leading gap, the
  trailing gap, and also a gap between two adjacent segments: whenever the space between
  two adjacent blended segments is not empty, InsertEmptySpace is called for it.\<close>

theorem InsertEmptySpace_calls:
  assumes "Segs \<noteq> []"
  shows "(\<forall>gap prev next.
            CallInsertEmptySpace gap prev next \<in> set (snd (ProcessSegments Rules Segs SourceData)) \<longrightarrow>
            \<not> IsEmpty gap \<and> gap = EmptyRange prev next \<and> (prev \<noteq> None \<or> next \<noteq> None)) \<and>
         (\<forall>i. i + 1 < length Segs \<and>
              \<not> IsEmpty (EmptyRange (Some (BlendSegment Rules (Segs ! i) SourceData))
                                      (Some (BlendSegment Rules (Segs ! (i + 1)) SourceData))) \<longrightarrow>
              CallInsertEmptySpace
                (EmptyRange (Some (BlendSegment Rules (Segs ! i) SourceData))
                            (Some (BlendSegment Rules (Segs ! (i + 1)) SourceData)))
                (Some (BlendSegment Rules (Segs ! i) SourceData))
                (Some (BlendSegment Rules (Segs ! (i + 1)) SourceData))
              \<in> set (snd (ProcessSegments Rules Segs SourceData)))"
proof -
  define Blended where "Blended = map (\<lambda>Segment. BlendSegment Rules Segment SourceData) Segs"
  define r1 where "r1 = InsertSegment Rules Blended 0 SourceData"
  define lead where "lead \<longleftrightarrow> \<not> IsOpen (GetLowerBound (Range' (Blended ! 0)))"
  define segs1 where "segs1 = (if lead then fst (snd r1) else Blended)"
  define calls1 where "calls1 = (if lead then snd (snd r1) else [])"
  define r2 where "r2 = InsertBetween Rules segs1 1 SourceData"
  define r3 where "r3 = InsertSegment Rules (fst r2) (length (fst r2)) SourceData"
  define calls3 where "calls3 = (if \<not> IsOpen (GetUpperBound (Range' (last (fst r2)))) then snd (snd r3) else [])"
  have calls: "set (snd (ProcessSegments Rules Segs SourceData)) =
           set (map CallBlendSegment Segs) \<union> set calls1 \<union> set (snd r2) \<union> set calls3 \<union>
           {CallPostProcessSegments
              (if \<not> IsOpen (GetUpperBound (Range' (last (fst r2)))) then fst (snd r3) else fst r2)}"
    unfolding calls1_def calls3_def r3_def r2_def segs1_def r1_def lead_def Blended_def
    by (rule ProcessSegments_calls_unfold [OF assms])
  have len: "length Blended = length Segs" "Blended \<noteq> []"
    using assms by (simp_all add: Blended_def)
  have segs1: "segs1 = Blended \<or> (\<exists>x. segs1 = InsertAt Blended 0 x)"
    using InsertSegment_shape [of Rules Blended 0 SourceData]
    by (auto simp add: segs1_def r1_def)
  then have len1: "0 < length segs1" using len by (auto simp add: InsertAt_def)
  with InsertBetween_length [of segs1 Rules 1 SourceData] have len2: "0 < length (fst r2)"
    by (auto simp add: r2_def)
  have only: "\<not> IsEmpty gap \<and> gap = EmptyRange prev next \<and> (prev \<noteq> None \<or> next \<noteq> None)"
    if "CallInsertEmptySpace gap prev next \<in> set (snd (ProcessSegments Rules Segs SourceData))"
    for gap prev "next"
  proof -
    from that calls consider "CallInsertEmptySpace gap prev next \<in> set calls1"
      | "CallInsertEmptySpace gap prev next \<in> set (snd r2)"
      | "CallInsertEmptySpace gap prev next \<in> set calls3"
      by auto
    then show ?thesis
    proof cases
      case 1
      then have "CallInsertEmptySpace gap prev next \<in> set (snd (snd (InsertSegment Rules Blended 0 SourceData)))"
        by (simp add: calls1_def r1_def split: if_splits)
      from InsertSegment_calls [OF this] len show ?thesis
        by (auto simp add: NextSegment_def)
    next
      case 2
      then show ?thesis
        using InsertBetween_calls [of gap prev "next" Rules segs1 1 SourceData]
        by (auto simp add: r2_def)
    next
      case 3
      then have "CallInsertEmptySpace gap prev next \<in>
          set (snd (snd (InsertSegment Rules (fst r2) (length (fst r2)) SourceData)))"
        by (simp add: calls3_def r3_def split: if_splits)
      from InsertSegment_calls [OF this] len2 show ?thesis
        by (auto simp add: PreviousSegment_def)
    qed
  qed
  have between: "CallInsertEmptySpace
                (EmptyRange (Some (BlendSegment Rules (Segs ! i) SourceData))
                            (Some (BlendSegment Rules (Segs ! (i + 1)) SourceData)))
                (Some (BlendSegment Rules (Segs ! i) SourceData))
                (Some (BlendSegment Rules (Segs ! (i + 1)) SourceData))
              \<in> set (snd (ProcessSegments Rules Segs SourceData))"
    if i: "i + 1 < length Segs"
      and gap: "\<not> IsEmpty (EmptyRange (Some (BlendSegment Rules (Segs ! i) SourceData))
                                      (Some (BlendSegment Rules (Segs ! (i + 1)) SourceData)))"
    for i
  proof -
    have B: "Blended ! i = BlendSegment Rules (Segs ! i) SourceData"
      "Blended ! (i + 1) = BlendSegment Rules (Segs ! (i + 1)) SourceData"
      using i by (simp_all add: Blended_def)
    from segs1 obtain j where j: "1 \<le> j" "j < length segs1"
      "segs1 ! (j - 1) = Blended ! i" "segs1 ! j = Blended ! (i + 1)"
    proof
      assume "segs1 = Blended"
      with i len show ?thesis by (intro that [of "i + 1"]) simp_all
    next
      assume "\<exists>x. segs1 = InsertAt Blended 0 x"
      then obtain x where "segs1 = InsertAt Blended 0 x" ..
      with i len show ?thesis
        by (intro that [of "i + 2"]) (simp_all add: InsertAt_nth_after)
    qed
    with gap B have "\<not> IsEmpty (EmptyRange (Some (segs1 ! (j - 1))) (Some (segs1 ! j)))"
      by simp
    from InsertBetween_calls_gap [OF j(1) _ j(2) this, of Rules SourceData] j B
    have "CallInsertEmptySpace
                (EmptyRange (Some (BlendSegment Rules (Segs ! i) SourceData))
                            (Some (BlendSegment Rules (Segs ! (i + 1)) SourceData)))
                (Some (BlendSegment Rules (Segs ! i) SourceData))
                (Some (BlendSegment Rules (Segs ! (i + 1)) SourceData)) \<in> set (snd r2)"
      by (simp add: r2_def)
    with calls show ?thesis by simp
  qed
  from only between show ?thesis by blast
qed

definition TwoApart :: "int FMovieSceneSectionData list" where
  "TwoApart = [SectionAt 0 5 0, SectionAt 10 15 1]"

lemma Compile_TwoApart:
  "Compile TwoApart None =
     [\<lparr>Range' = TRange (Inclusive 0) (Exclusive 5), Impls = [\<lparr>ImplIndex = 0, Flags = NoFlags\<rparr>]\<rparr>,
      \<lparr>Range' = TRange (Inclusive 10) (Exclusive 15), Impls = [\<lparr>ImplIndex = 1, Flags = NoFlags\<rparr>]\<rparr>]"
  by code_simp

theorem InsertEmptySpace_between_counterexample:
  "CallInsertEmptySpace (TRange (Inclusive 5) (Exclusive 10))
     (Some \<lparr>Range' = TRange (Inclusive 0) (Exclusive 5), Impls = [\<lparr>ImplIndex = 0, Flags = NoFlags\<rparr>]\<rparr>)
     (Some \<lparr>Range' = TRange (Inclusive 10) (Exclusive 15), Impls = [\<lparr>ImplIndex = 1, Flags = NoFlags\<rparr>]\<rparr>)
   \<in> set (snd (ProcessSegments PassiveRules (Compile TwoApart None) TwoApart))"
  by code_simp

theorem InsertEmptySpace_calls_witness:
  "[\<lparr>Range' = TRange (Inclusive 0) (Exclusive 5), Impls = []\<rparr>,
    \<lparr>Range' = TRange (Inclusive 10) (Exclusive (15::int)), Impls = []\<rparr>] \<noteq> [] \<and>
   \<not> IsEmpty (EmptyRange (Some \<lparr>Range' = TRange (Inclusive 0) (Exclusive 5), Impls = []\<rparr>)
                          (Some \<lparr>Range' = TRange (Inclusive 10) (Exclusive (15::int)), Impls = []\<rparr>)) \<and>
   CallInsertEmptySpace (TRange (Inclusive 5) (Exclusive 10))
     (Some \<lparr>Range' = TRange (Inclusive 0) (Exclusive 5), Impls = []\<rparr>)
     (Some \<lparr>Range' = TRange (Inclusive 10) (Exclusive 15), Impls = []\<rparr>)
   \<in> set (snd (ProcessSegments FillRules
         [\<lparr>Range' = TRange (Inclusive 0) (Exclusive 5), Impls = []\<rparr>,
          \<lparr>Range' = TRange (Inclusive 10) (Exclusive 15), Impls = []\<rparr>] []))"
  using InsertEmptySpace_calls [of
      "[\<lparr>Range' = TRange (Inclusive 0) (Exclusive 5), Impls = []\<rparr>,
        \<lparr>Range' = TRange (Inclusive 10) (Exclusive 15), Impls = []\<rparr>]" FillRules "[]",
      THEN conjunct2, rule_format, of 0]
  by (simp add: FillRules_def EmptyRange_def)

subsection \<open>Unfolding the loops of the sweep\<close>

lemma CompileLoop_step:
  "LowerReadIndex st < length (LowerBounds st) \<Longrightarrow>
   CompileLoop st = CompileLoop (OpenAtLower (CloseCompletedSegments st))"
  by (subst CompileLoop.simps) simp

lemma CompileLoop_stop:
  "\<not> LowerReadIndex st < length (LowerBounds st) \<Longrightarrow> CompileLoop st = st"
  by (subst CompileLoop.simps) simp

lemma CloseLoop_stop:
  "\<not> UpperReadIndex st < length (UpperBounds st) \<Longrightarrow> CloseLoop st = st"
  by (subst CloseLoop.simps) simp

lemma CloseLoop_opening:
  "UpperReadIndex st < length (UpperBounds st) \<Longrightarrow> bHasOpeningRange st \<Longrightarrow>
   CloseLoop st = CloseAtOpening st"
  by (subst CloseLoop.simps) simp

lemma CloseLoop_step:
  "UpperReadIndex st < length (UpperBounds st) \<Longrightarrow> \<not> bHasOpeningRange st \<Longrightarrow>
   CloseLoop st = CloseLoop (CloseAtUpper st)"
  by (subst CloseLoop.simps) simp

lemma OpenStarting_step:
  "LowerReadIndex st + 1 < length (LowerBounds st) \<Longrightarrow>
   Bound (LowerBounds st ! (LowerReadIndex st + 1)) = ob \<Longrightarrow>
   OpenStarting ob st =
     OpenStarting ob ((AddOverlapping (BoundEvalData (LowerBounds st ! LowerReadIndex st)) st)
                        \<lparr>LowerReadIndex := LowerReadIndex st + 1\<rparr>)"
  by (subst OpenStarting.simps) (simp add: Let_def)

lemma OpenStarting_stop:
  "\<not> (LowerReadIndex st + 1 < length (LowerBounds st) \<and>
      Bound (LowerBounds st ! (LowerReadIndex st + 1)) = ob) \<Longrightarrow>
   OpenStarting ob st =
     (AddOverlapping (BoundEvalData (LowerBounds st ! LowerReadIndex st)) st)
        \<lparr>LowerReadIndex := LowerReadIndex st + 1\<rparr>"
  by (subst OpenStarting.simps) (auto simp add: Let_def)

lemmas sweep_unfold =
  CompileLoop_step CompileLoop_stop CloseLoop_stop CloseLoop_opening CloseLoop_step
  OpenStarting_step OpenStarting_stop CloseFinished_step CloseFinished_stop
  Compile_def Sweep_def InitialBuffers_def NonEmptySections_def
  CloseCompletedSegments_def bHasOpeningRange_def CloseAtOpening_def
  CloseAtUpper_def OpenAtLower_def AddOverlapping_def
  RemoveOverlapping_def RemoveAtSwap_def SetLastRange_def Let_def

subsection \<open>Touching sections\<close>

lemma Sweep_touching:
  fixes a b c :: "'a::linorder"
  assumes "a < b" "b < c"
  shows "CompiledSegments (Sweep
           [\<lparr>Bounds = TRange (Inclusive a) (Exclusive b), EvalData = e1, Priority = p1\<rparr>,
            \<lparr>Bounds = TRange (Inclusive b) (Exclusive c), EvalData = e2, Priority = p2\<rparr>]) =
         [\<lparr>Range' = TRange (Inclusive a) (Exclusive b), Impls = [e1]\<rparr>,
          \<lparr>Range' = TRange (Inclusive b) (Exclusive c), Impls = [e2]\<rparr>]"
proof -
  from assms have ord: "\<not> b \<le> a" "\<not> c \<le> b" "a \<noteq> b" "b \<noteq> a" "\<not> b < a" "\<not> c < b"
    "b \<noteq> c" "c \<noteq> b" "a < c" "\<not> c \<le> a" "a \<le> b" "b \<le> c"
    by auto
  let ?L = "[\<lparr>BoundEvalData = e1, Bound = Inclusive a\<rparr>, \<lparr>BoundEvalData = e2, Bound = Inclusive b\<rparr>]"
  let ?U = "[\<lparr>BoundEvalData = e1, Bound = Exclusive b\<rparr>, \<lparr>BoundEvalData = e2, Bound = Exclusive c\<rparr>]"
  let ?st0 = "\<lparr>OverlappingSections = [], OverlappingRefCounts = [], LowerBounds = ?L, UpperBounds = ?U,
      CompiledSegments = [], LowerReadIndex = 0, UpperReadIndex = 0\<rparr>"
  let ?st1 = "\<lparr>OverlappingSections = [e1], OverlappingRefCounts = [1], LowerBounds = ?L, UpperBounds = ?U,
      CompiledSegments = [\<lparr>Range' = TRange (Inclusive a) Open, Impls = [e1]\<rparr>],
      LowerReadIndex = 1, UpperReadIndex = 0\<rparr>"
  let ?st2 = "\<lparr>OverlappingSections = [], OverlappingRefCounts = [], LowerBounds = ?L, UpperBounds = ?U,
      CompiledSegments = [\<lparr>Range' = TRange (Inclusive a) (Exclusive b), Impls = [e1]\<rparr>],
      LowerReadIndex = 1, UpperReadIndex = 1\<rparr>"
  let ?st3 = "\<lparr>OverlappingSections = [e2], OverlappingRefCounts = [1], LowerBounds = ?L, UpperBounds = ?U,
      CompiledSegments = [\<lparr>Range' = TRange (Inclusive a) (Exclusive b), Impls = [e1]\<rparr>,
                          \<lparr>Range' = TRange (Inclusive b) Open, Impls = [e2]\<rparr>],
      LowerReadIndex = 2, UpperReadIndex = 1\<rparr>"
  let ?st4 = "\<lparr>OverlappingSections = [], OverlappingRefCounts = [], LowerBounds = ?L, UpperBounds = ?U,
      CompiledSegments = [\<lparr>Range' = TRange (Inclusive a) (Exclusive b), Impls = [e1]\<rparr>,
                          \<lparr>Range' = TRange (Inclusive b) (Exclusive c), Impls = [e2]\<rparr>],
      LowerReadIndex = 2, UpperReadIndex = 2\<rparr>"
  have ib: "InitialBuffers [\<lparr>Bounds = TRange (Inclusive a) (Exclusive b), EvalData = e1, Priority = p1\<rparr>,
                  \<lparr>Bounds = TRange (Inclusive b) (Exclusive c), EvalData = e2, Priority = p2\<rparr>] = ?st0"
    using ord by (simp add: InitialBuffers_def NonEmptySections_def)
  have s1: "OpenAtLower (CloseCompletedSegments ?st0) = ?st1"
    using ord by (simp add: CloseCompletedSegments_def OpenAtLower_def OpenStarting_stop AddOverlapping_def Let_def)
  have "CloseAtUpper ?st1 = ?st2"
    using ord
    by (simp add: CloseAtUpper_def CloseFinished_step CloseFinished_stop RemoveOverlapping_def
        RemoveAtSwap_def SetLastRange_def Let_def)
  then have s2: "CloseCompletedSegments ?st1 = ?st2"
    using ord
    by (simp add: CloseCompletedSegments_def CloseLoop_step CloseLoop_opening bHasOpeningRange_def
        CloseAtOpening_def)
  have s3: "OpenAtLower ?st2 = ?st3"
    using ord by (simp add: OpenAtLower_def OpenStarting_stop AddOverlapping_def Let_def)
  have "CloseAtUpper ?st3 = ?st4"
    using ord
    by (simp add: CloseAtUpper_def CloseFinished_step CloseFinished_stop RemoveOverlapping_def
        RemoveAtSwap_def SetLastRange_def Let_def)
  then have s4: "CloseCompletedSegments ?st3 = ?st4"
    by (simp add: CloseCompletedSegments_def CloseLoop_step CloseLoop_stop bHasOpeningRange_def)
  have "CompileLoop ?st0 = CompileLoop ?st1"
    using s1 by (simp add: CompileLoop_step)
  also have "\<dots> = CompileLoop ?st3"
    using s2 s3 by (simp add: CompileLoop_step)
  also have "\<dots> = ?st3"
    by (simp add: CompileLoop_stop)
  finally show ?thesis
    using s4 ib by (simp add: Sweep_def)
qed

text \<open>C5, as the code has it: two sections over [a, b) and [b, c) compile, without
  rules, to two segments, [a, b) with the evaluation data of the first section and [b, c)
  with that of the second. The two segments adjoin and the space between them is empty;
  no segment over [a, c) is made.\<close>

theorem Compile_touching_sections:
  fixes a b c :: "'a::linorder"
  assumes "a < b" and "b < c"
  shows "Compile [\<lparr>Bounds = TRange (Inclusive a) (Exclusive b), EvalData = e1, Priority = p1\<rparr>,
                  \<lparr>Bounds = TRange (Inclusive b) (Exclusive c), EvalData = e2, Priority = p2\<rparr>] None =
           [\<lparr>Range' = TRange (Inclusive a) (Exclusive b), Impls = [e1]\<rparr>,
            \<lparr>Range' = TRange (Inclusive b) (Exclusive c), Impls = [e2]\<rparr>] \<and>
         Adjoins (TRange (Inclusive a) (Exclusive b)) (TRange (Inclusive b) (Exclusive c)) \<and>
         IsEmpty (EmptyRange (Some \<lparr>Range' = TRange (Inclusive a) (Exclusive b), Impls = [e1]\<rparr>)
                             (Some \<lparr>Range' = TRange (Inclusive b) (Exclusive c), Impls = [e2]\<rparr>))"
  using Sweep_touching [OF assms, of e1 p1 e2 p2]
  by (simp add: Compile_def Adjoins_def EmptyRange_def)

theorem Compile_touching_sections_witness:
  "(1::int) < 2 \<and> (2::int) < 3 \<and>
   Compile [SectionAt 1 2 7, SectionAt 2 3 7] None =
     [\<lparr>Range' = TRange (Inclusive 1) (Exclusive 2), Impls = [\<lparr>ImplIndex = 7, Flags = NoFlags\<rparr>]\<rparr>,
      \<lparr>Range' = TRange (Inclusive 2) (Exclusive 3), Impls = [\<lparr>ImplIndex = 7, Flags = NoFlags\<rparr>]\<rparr>]"
  using Compile_touching_sections [of "1::int" 2 3 "\<lparr>ImplIndex = 7, Flags = NoFlags\<rparr>" 0
      "\<lparr>ImplIndex = 7, Flags = NoFlags\<rparr>" 0]
  by (simp add: SectionAt_def)

theorem Compile_touching_counterexample:
  "length (Compile [SectionAt 0 5 0, SectionAt 5 10 1] None) = 2 \<and>
   Compile [SectionAt 0 5 0, SectionAt 5 10 1] None =
     [\<lparr>Range' = TRange (Inclusive 0) (Exclusive 5), Impls = [\<lparr>ImplIndex = 0, Flags = NoFlags\<rparr>]\<rparr>,
      \<lparr>Range' = TRange (Inclusive 5) (Exclusive 10), Impls = [\<lparr>ImplIndex = 1, Flags = NoFlags\<rparr>]\<rparr>]"
  by code_simp

section \<open>The final loop of the track compiler\<close>

lemma MergeSegments_append:
  "MergeSegments b lut (segs @ segs') Result =
     (case MergeSegments b lut segs Result of None \<Rightarrow> None | Some R \<Rightarrow> MergeSegments b lut segs' R)"
  by (induction segs arbitrary: Result) (simp_all split: option.split)

text \<open>C4, as the code has it: in the final loop of the track compiler, a remapped
  segment that is kept extends the last segment of the result to the hull of the two
  ranges exactly when the two ranges adjoin and the two lists of evaluation data are the
  same list, the same data in the same order; otherwise it is added as a segment of its
  own.\<close>

theorem MergeSegments_last:
  assumes "MergeSegments b lut segs [] = Some Result"
    and "RemapImpls lut (Impls Segment) = Some Remapped"
    and "Remapped \<noteq> [] \<or> b"
  shows "MergeSegments b lut (segs @ [Segment]) [] =
           Some (if Result \<noteq> [] \<and> Adjoins (Range' (last Result)) (Range' Segment) \<and>
                    Impls (last Result) = Remapped
                 then butlast Result @
                        [(last Result)\<lparr>Range' := Hull (Range' (last Result)) (Range' Segment)\<rparr>]
                 else Result @ [Segment\<lparr>Impls := Remapped\<rparr>])"
  using assms by (auto simp add: MergeSegments_append AddToResult_def SetLastRange_def)

theorem MergeSegments_last_witness:
  "MergeSegments False [3, 3]
     [\<lparr>Range' = TRange (Inclusive 0) (Exclusive (5::int)), Impls = [\<lparr>ImplIndex = 0, Flags = NoFlags\<rparr>]\<rparr>] [] =
     Some [\<lparr>Range' = TRange (Inclusive 0) (Exclusive 5), Impls = [\<lparr>ImplIndex = 3, Flags = NoFlags\<rparr>]\<rparr>] \<and>
   RemapImpls [3, 3] [\<lparr>ImplIndex = 1, Flags = NoFlags\<rparr>] = Some [\<lparr>ImplIndex = 3, Flags = NoFlags\<rparr>] \<and>
   MergeSegments False [3, 3]
     [\<lparr>Range' = TRange (Inclusive 0) (Exclusive (5::int)), Impls = [\<lparr>ImplIndex = 0, Flags = NoFlags\<rparr>]\<rparr>,
      \<lparr>Range' = TRange (Inclusive 5) (Exclusive 10), Impls = [\<lparr>ImplIndex = 1, Flags = NoFlags\<rparr>]\<rparr>] [] =
     Some [\<lparr>Range' = TRange (Inclusive 0) (Exclusive 10), Impls = [\<lparr>ImplIndex = 3, Flags = NoFlags\<rparr>]\<rparr>]"
  using MergeSegments_last [of False "[3, 3]"
      "[\<lparr>Range' = TRange (Inclusive 0) (Exclusive (5::int)), Impls = [\<lparr>ImplIndex = 0, Flags = NoFlags\<rparr>]\<rparr>]"
      "[\<lparr>Range' = TRange (Inclusive 0) (Exclusive 5), Impls = [\<lparr>ImplIndex = 3, Flags = NoFlags\<rparr>]\<rparr>]"
      "\<lparr>Range' = TRange (Inclusive 5) (Exclusive 10), Impls = [\<lparr>ImplIndex = 1, Flags = NoFlags\<rparr>]\<rparr>"
      "[\<lparr>ImplIndex = 3, Flags = NoFlags\<rparr>]"]
  by (simp add: At_def AddToResult_def Adjoins_def Hull_def)

text \<open>Two rows: the first holds the same evaluation data over [0, 10) and over [5, 10),
  the second other evaluation data over [0, 10).\<close>

definition RowData :: "int \<Rightarrow> int \<Rightarrow> int \<Rightarrow> int \<Rightarrow> int FMovieSceneSectionRowData" where
  "RowData a b i k =
     \<lparr>Bounds = TRange (Inclusive a) (Exclusive b), EvalData = \<lparr>ImplIndex = i, Flags = NoFlags\<rparr>,
      Priority = 0, ActualSectionIndex = k\<rparr>"

definition TwoRows :: "int FRow list" where
  "TwoRows =
     [\<lparr>Sections = [RowData 0 10 0 0, RowData 5 10 0 0], CompileRules = None\<rparr>,
      \<lparr>Sections = [RowData 0 10 0 1], CompileRules = None\<rparr>]"

theorem TrackCompile_order_counterexample:
  "TrackCompile TwoRows None =
     Some \<lparr>Segments =
       [\<lparr>Range' = TRange (Inclusive 0) (Exclusive 5),
         Impls = [\<lparr>ImplIndex = 0, Flags = NoFlags\<rparr>, \<lparr>ImplIndex = 1, Flags = NoFlags\<rparr>]\<rparr>,
        \<lparr>Range' = TRange (Inclusive 5) (Exclusive 10),
         Impls = [\<lparr>ImplIndex = 1, Flags = NoFlags\<rparr>, \<lparr>ImplIndex = 0, Flags = NoFlags\<rparr>]\<rparr>]\<rparr> \<and>
   Adjoins (TRange (Inclusive 0) (Exclusive (5::int))) (TRange (Inclusive 5) (Exclusive 10)) \<and>
   set [\<lparr>ImplIndex = 0, Flags = NoFlags\<rparr>, \<lparr>ImplIndex = 1, Flags = NoFlags\<rparr>] =
   set [\<lparr>ImplIndex = 1, Flags = NoFlags\<rparr>, \<lparr>ImplIndex = 0, Flags = NoFlags\<rparr>]"
  by code_simp

section \<open>The sorted bound lists\<close>

lemma SortInsert_mset [simp]: "mset (SortInsert pred x ys) = add_mset x (mset ys)"
  by (induction ys) simp_all

lemma SortInsert_set [simp]: "set (SortInsert pred x ys) = insert x (set ys)"
  by (induction ys) auto

lemma Sort_mset [simp]: "mset (Sort pred xs) = mset xs"
  by (induction xs) simp_all

lemma Sort_length [simp]: "length (Sort pred xs) = length xs"
  using Sort_mset [of pred xs] by (metis size_mset)

lemma Sort_set [simp]: "set (Sort pred xs) = set xs"
  using Sort_mset [of pred xs] by (metis set_mset_mset)

lemma SortInsert_sorted:
  fixes key :: "'b \<Rightarrow> 'k::linorder"
  assumes "\<And>a b. pred a b \<longleftrightarrow> key a \<le> key b" and "sorted (map key ys)"
  shows "sorted (map key (SortInsert pred x ys))"
  using assms(2)
proof (induction ys)
  case Nil
  then show ?case by simp
next
  case (Cons y ys)
  with assms(1) show ?case by auto
qed

lemma Sort_sorted:
  fixes key :: "'b \<Rightarrow> 'k::linorder"
  assumes "\<And>a b. pred a b \<longleftrightarrow> key a \<le> key b"
  shows "sorted (map key (Sort pred xs))"
  by (induction xs) (simp_all add: SortInsert_sorted [OF assms])

lemma SortInsert_filter:
  fixes key :: "'b \<Rightarrow> 'k::linorder"
  assumes "\<And>a b. pred a b \<longleftrightarrow> key a \<le> key b"
  shows "filter (\<lambda>y. key y = k) (SortInsert pred x ys) =
           (if key x = k then x # filter (\<lambda>y. key y = k) ys else filter (\<lambda>y. key y = k) ys)"
  by (induction ys) (auto simp add: assms)

lemma Sort_stable:
  fixes key :: "'b \<Rightarrow> 'k::linorder"
  assumes "\<And>a b. pred a b \<longleftrightarrow> key a \<le> key b"
  shows "filter (\<lambda>y. key y = k) (Sort pred xs) = filter (\<lambda>y. key y = k) xs"
  by (induction xs) (simp_all add: SortInsert_filter [OF assms])

lemma CompileLoop_keeps:
  "UpperBounds (CompileLoop st) = UpperBounds st \<and> LowerBounds (CompileLoop st) = LowerBounds st"
proof (induction st rule: CompileLoop.induct)
  case (1 st)
  show ?case
  proof (cases "LowerReadIndex st < length (LowerBounds st)")
    case True
    with 1 show ?thesis by (simp add: CompileLoop_step)
  next
    case False
    then show ?thesis by (simp add: CompileLoop_stop)
  qed
qed

lemma Sweep_bounds:
  "LowerBounds (Sweep Data) = LowerBounds (InitialBuffers Data)"
  "UpperBounds (Sweep Data) = UpperBounds (InitialBuffers Data)"
  by (simp_all add: Sweep_def CompileLoop_keeps)

text \<open>With the insertion sort that stands for TArray::Sort, the bound lists that the
  sweep reads are sorted by MinLower and by MinUpper, and among bounds of the same value
  the entries stand in the order of the sections in the input.\<close>

lemma Sweep_bounds_sorted:
  "sorted_wrt (\<lambda>A B. MinLower (Bound A) (Bound B) = Bound A) (LowerBounds (Sweep Data)) \<and>
   sorted_wrt (\<lambda>A B. MinUpper (Bound A) (Bound B) = Bound A) (UpperBounds (Sweep Data)) \<and>
   (\<forall>b. filter (\<lambda>A. Bound A = b) (LowerBounds (Sweep Data)) =
        filter (\<lambda>A. Bound A = b)
          (map (\<lambda>Section. \<lparr>BoundEvalData = EvalData Section, Bound = GetLowerBound (Bounds Section)\<rparr>)
               (NonEmptySections Data))) \<and>
   (\<forall>b. filter (\<lambda>A. Bound A = b) (UpperBounds (Sweep Data)) =
        filter (\<lambda>A. Bound A = b)
          (map (\<lambda>Section. \<lparr>BoundEvalData = EvalData Section, Bound = GetUpperBound (Bounds Section)\<rparr>)
               (NonEmptySections Data)))"
proof -
  let ?lo = "map (\<lambda>Section. \<lparr>BoundEvalData = EvalData Section, Bound = GetLowerBound (Bounds Section)\<rparr>)
               (NonEmptySections Data)"
  let ?up = "map (\<lambda>Section. \<lparr>BoundEvalData = EvalData Section, Bound = GetUpperBound (Bounds Section)\<rparr>)
               (NonEmptySections Data)"
  let ?pl = "\<lambda>A B :: 'a FBound. MinLower (Bound A) (Bound B) = Bound A"
  let ?pu = "\<lambda>A B :: 'a FBound. MinUpper (Bound A) (Bound B) = Bound A"
  have L: "LowerBounds (Sweep Data) = Sort ?pl ?lo" and U: "UpperBounds (Sweep Data) = Sort ?pu ?up"
    by (simp_all add: Sweep_bounds InitialBuffers_def)
  have kl: "\<And>A B :: 'a FBound. ?pl A B \<longleftrightarrow> lcut (Bound A) \<le> lcut (Bound B)"
    by (simp add: MinLower_iff)
  have ku: "\<And>A B :: 'a FBound. ?pu A B \<longleftrightarrow> ucut (Bound A) \<le> ucut (Bound B)"
    by (simp add: MinUpper_iff)
  have "sorted (map (\<lambda>A. lcut (Bound A)) (Sort ?pl ?lo))"
    by (rule Sort_sorted [OF kl])
  then have sl: "sorted_wrt ?pl (Sort ?pl ?lo)"
    by (simp add: sorted_map kl)
  have "sorted (map (\<lambda>A. ucut (Bound A)) (Sort ?pu ?up))"
    by (rule Sort_sorted [OF ku])
  then have su: "sorted_wrt ?pu (Sort ?pu ?up)"
    by (simp add: sorted_map ku)
  have fl: "filter (\<lambda>A. Bound A = b) (Sort ?pl ?lo) = filter (\<lambda>A. Bound A = b) ?lo" for b
    using Sort_stable [of ?pl "\<lambda>A. lcut (Bound A)" "lcut b" ?lo, OF kl] by simp
  have fu: "filter (\<lambda>A. Bound A = b) (Sort ?pu ?up) = filter (\<lambda>A. Bound A = b) ?up" for b
    using Sort_stable [of ?pu "\<lambda>A. ucut (Bound A)" "ucut b" ?up, OF ku] by simp
  show ?thesis
    unfolding L U using sl su fl fu by simp
qed

section \<open>The rows built from the sections\<close>

text \<open>The entries that the body of the loop of the constructor adds to the row of an
  active section, read off AddSection: Identity is the number of entries the row holds
  before. The pre-roll and the post-roll entry are built from the value of the bound, so
  their windows are the same for an inclusive and for an exclusive bound.\<close>

definition RowEntries ::
  "nat \<Rightarrow> nat \<Rightarrow> 'a::{linorder,zero,plus,minus} UMovieSceneSection \<Rightarrow> 'a FMovieSceneSectionRowData list" where
  "RowEntries Index Identity Section =
     (let Primary = (if IsInfinite Section then TRange Open Open else GetRange Section);
          Entry = (\<lambda>Window Tag.
                     \<lparr>Bounds = Window, EvalData = \<lparr>ImplIndex = int Identity, Flags = Tag\<rparr>,
                      Priority = GetOverlapPriority Section, ActualSectionIndex = int Index\<rparr>)
      in [Entry Primary NoFlags] @
         (case GetLowerBound Primary of
            Open \<Rightarrow> []
          | Inclusive v \<Rightarrow>
              if 0 < GetPreRollTime Section
              then [Entry (TRange (Inclusive (v - GetPreRollTime Section)) (Exclusive v)) PreRoll] else []
          | Exclusive v \<Rightarrow>
              if 0 < GetPreRollTime Section
              then [Entry (TRange (Inclusive (v - GetPreRollTime Section)) (Exclusive v)) PreRoll] else []) @
         (case GetUpperBound Primary of
            Open \<Rightarrow> []
          | Inclusive v \<Rightarrow>
              if 0 < GetPostRollTime Section
              then [Entry (TRange (Exclusive v) (Inclusive (v + GetPostRollTime Section))) PostRoll] else []
          | Exclusive v \<Rightarrow>
              if 0 < GetPostRollTime Section
              then [Entry (TRange (Exclusive v) (Inclusive (v + GetPostRollTime Section))) PostRoll] else []))"

text \<open>The entries of the row of an index; a row that does not exist has none.\<close>

definition RowSections :: "nat \<Rightarrow> 'a FRow list \<Rightarrow> 'a FMovieSceneSectionRowData list" where
  "RowSections r Rows = (if r < length Rows then Sections (Rows ! r) else [])"

lemma RowSections_AddRowData:
  "r < length Rows \<Longrightarrow>
   RowSections r' (AddRowData r d Rows) = RowSections r' Rows @ (if r' = r then [d] else [])"
  by (simp add: RowSections_def AddRowData_def nth_list_update)

lemma AddRowData_length [simp]: "length (AddRowData r d Rows) = length Rows"
  by (simp add: AddRowData_def)

lemma RowSections_extend:
  "RowSections r (Rows @ replicate n \<lparr>Sections = [], CompileRules = None\<rparr>) = RowSections r Rows"
  by (simp add: RowSections_def nth_append)

lemma AddSection_None [simp]: "AddSection Index None Rows = Rows"
  by (simp add: AddSection_def)

lemma AddSection_inactive [simp]: "\<not> IsActive Section \<Longrightarrow> AddSection Index (Some Section) Rows = Rows"
  by (simp add: AddSection_def)

lemma EnsureRow_length: "RowIndex < length (EnsureRow RowIndex Rows)"
  by (simp add: EnsureRow_def)

lemma RowSections_EnsureRow [simp]: "RowSections r (EnsureRow RowIndex Rows) = RowSections r Rows"
  by (cases "RowIndex < length Rows") (simp_all only: EnsureRow_def if_True if_False RowSections_extend)

lemma AddSection_row:
  assumes "IsActive Section"
  shows "RowSections r (AddSection Index (Some Section) Rows) =
           RowSections r Rows @
           (if GetRowIndex Section = r
            then RowEntries Index (length (RowSections r Rows)) Section else [])"
proof -
  have len: "GetRowIndex Section < length (EnsureRow (GetRowIndex Section) Rows)"
    by (rule EnsureRow_length)
  have n: "length (Sections (EnsureRow (GetRowIndex Section) Rows ! GetRowIndex Section)) =
           length (RowSections (GetRowIndex Section) Rows)"
    using len RowSections_EnsureRow [of "GetRowIndex Section" "GetRowIndex Section" Rows]
    by (simp add: RowSections_def)
  show ?thesis
  proof (cases "GetRowIndex Section = r")
    case False
    with assms len show ?thesis
      by (simp add: AddSection_def Let_def RowSections_AddRowData)
  next
    case True
    then have r: "r = GetRowIndex Section" by simp
    show ?thesis
    proof (cases "IsInfinite Section")
      case True
      with assms len show ?thesis
        unfolding r by (simp add: AddSection_def Let_def RowEntries_def RowSections_AddRowData n)
    next
      case False
      with assms len show ?thesis
        unfolding r
        by (cases "GetLowerBound (GetRange Section)"; cases "GetUpperBound (GetRange Section)")
           (simp_all add: AddSection_def Let_def RowEntries_def RowSections_AddRowData n)
    qed
  qed
qed

lemma RowEntries_index:
  "d \<in> set (RowEntries Index n Section) \<Longrightarrow> ActualSectionIndex d = int Index"
  by (auto simp add: RowEntries_def Let_def split: TRangeBound.splits if_splits)

lemma filter_RowEntries:
  "filter (\<lambda>d. ActualSectionIndex d = int i) (RowEntries Index n Section) =
     (if i = Index then RowEntries Index n Section else [])"
  using RowEntries_index [of _ Index n Section]
  by (auto simp add: filter_empty_conv intro: filter_True)

lemma AddSections_row:
  "\<exists>n. filter (\<lambda>d. ActualSectionIndex d = int i) (RowSections r (AddSections Index SectionList Rows)) =
         filter (\<lambda>d. ActualSectionIndex d = int i) (RowSections r Rows) @
         (if Index \<le> i \<and> i - Index < length SectionList
          then (case SectionList ! (i - Index) of
                  None \<Rightarrow> []
                | Some Section \<Rightarrow>
                    if IsActive Section \<and> GetRowIndex Section = r
                    then RowEntries i n Section else [])
          else [])"
proof (induction SectionList arbitrary: Index Rows)
  case Nil
  show ?case by simp
next
  case (Cons x rest)
  from Cons [of "Index + 1" "AddSection Index x Rows"] obtain n where
    n: "filter (\<lambda>d. ActualSectionIndex d = int i)
          (RowSections r (AddSections (Index + 1) rest (AddSection Index x Rows))) =
        filter (\<lambda>d. ActualSectionIndex d = int i) (RowSections r (AddSection Index x Rows)) @
         (if Index + 1 \<le> i \<and> i - (Index + 1) < length rest
          then (case rest ! (i - (Index + 1)) of
                  None \<Rightarrow> []
                | Some Section \<Rightarrow>
                    if IsActive Section \<and> GetRowIndex Section = r
                    then RowEntries i n Section else [])
          else [])"
    by blast
  show ?case
  proof (cases "i = Index")
    case True
    show ?thesis
    proof (cases x)
      case None
      with n True show ?thesis by simp
    next
      case (Some Section)
      show ?thesis
      proof (cases "IsActive Section")
        case False
        with n True Some show ?thesis by simp
      next
        case active: True
        with n True Some show ?thesis
          by (intro exI [of _ "length (RowSections r Rows)"])
             (simp add: AddSection_row filter_RowEntries)
      qed
    qed
  next
    case False
    have "filter (\<lambda>d. ActualSectionIndex d = int i) (RowSections r (AddSection Index x Rows)) =
          filter (\<lambda>d. ActualSectionIndex d = int i) (RowSections r Rows)"
    proof (cases x)
      case None
      then show ?thesis by simp
    next
      case (Some Section)
      with False show ?thesis
        by (cases "IsActive Section") (simp_all add: AddSection_row filter_RowEntries)
    qed
    with n False show ?thesis
      by (intro exI [of _ n]) (auto simp add: nth_Cons' Suc_diff_Suc)
  qed
qed


lemma concat_nonempty_rows:
  "concat (map Sections (filter (\<lambda>Row. Sections Row \<noteq> []) Rows)) = concat (map Sections Rows)"
  by (induction Rows) simp_all

lemma FRows_sections:
  "concat (map Sections (FRows SectionList Rules)) = concat (map Sections (AddSections 0 SectionList []))"
  by (simp add: FRows_def comp_def concat_nonempty_rows)

lemma concat_only:
  "r0 < m \<Longrightarrow> (\<And>r. r \<noteq> r0 \<Longrightarrow> f r = []) \<Longrightarrow> concat (map f [0..<m]) = f r0"
proof (induction m)
  case 0
  then show ?case by simp
next
  case (Suc m)
  show ?case
  proof (cases "r0 = m")
    case True
    have "concat (map f [0..<m]) = []"
      using Suc.prems(2) True by (auto simp add: concat_eq_Nil_conv)
    with True show ?thesis by simp
  next
    case False
    with Suc have "concat (map f [0..<m]) = f r0" by simp
    with False Suc.prems(2) [of m] show ?thesis by simp
  qed
qed

lemma filter_rows:
  "filter P (concat (map Sections Rows)) =
     concat (map (\<lambda>r. filter P (RowSections r Rows)) [0..<length Rows])"
proof -
  have "map (\<lambda>r. filter P (RowSections r Rows)) [0..<length Rows] =
        map (\<lambda>r. filter P (Sections (Rows ! r))) [0..<length Rows]"
    by (simp add: RowSections_def)
  also have "\<dots> = map (\<lambda>Row. filter P (Sections Row)) (map (\<lambda>r. Rows ! r) [0..<length Rows])"
    by (simp add: comp_def)
  also have "\<dots> = map (\<lambda>Row. filter P (Sections Row)) Rows"
    by (simp add: map_nth)
  finally show ?thesis
    by (simp add: filter_concat comp_def)
qed

lemma RowEntries_not_Nil [simp]: "RowEntries Index n Section \<noteq> []"
  by (simp add: RowEntries_def Let_def)

text \<open>The entries of the rows that come from an active section are those of
  RowEntries, in one row and in this order.\<close>

lemma FRows_row_entries:
  assumes "i < length SectionList" and "SectionList ! i = Some Section" and "IsActive Section"
  shows "\<exists>n. filter (\<lambda>d. ActualSectionIndex d = int i) (concat (map Sections (FRows SectionList Rules))) =
               RowEntries i n Section \<and>
             (IsInfinite Section \<longrightarrow>
                filter (\<lambda>d. ActualSectionIndex d = int i) (concat (map Sections (FRows SectionList Rules))) =
                  [\<lparr>Bounds = TRange Open Open, EvalData = \<lparr>ImplIndex = int n, Flags = NoFlags\<rparr>,
                    Priority = GetOverlapPriority Section, ActualSectionIndex = int i\<rparr>])"
proof -
  let ?P = "\<lambda>d :: 'a FMovieSceneSectionRowData. ActualSectionIndex d = int i"
  let ?rows = "AddSections 0 SectionList []"
  let ?r0 = "GetRowIndex Section"
  have row: "\<exists>n. filter ?P (RowSections r ?rows) = (if ?r0 = r then RowEntries i n Section else [])" for r
    using AddSections_row [of i r 0 SectionList "[]"] assms
    by (simp add: RowSections_def)
  from row [of ?r0] obtain n where n: "filter ?P (RowSections ?r0 ?rows) = RowEntries i n Section"
    by auto
  then have "RowSections ?r0 ?rows \<noteq> []"
    by (metis RowEntries_not_Nil filter.simps(1))
  then have r0: "?r0 < length ?rows"
    by (simp add: RowSections_def split: if_splits)
  have other: "filter ?P (RowSections r ?rows) = []" if "r \<noteq> ?r0" for r
    using row [of r] that by auto
  have "filter ?P (concat (map Sections (FRows SectionList Rules))) =
        concat (map (\<lambda>r. filter ?P (RowSections r ?rows)) [0..<length ?rows])"
    by (simp only: FRows_sections filter_rows)
  also have "\<dots> = filter ?P (RowSections ?r0 ?rows)"
    using r0 other by (rule concat_only)
  finally have eq: "filter ?P (concat (map Sections (FRows SectionList Rules))) = RowEntries i n Section"
    using n by simp
  show ?thesis
    by (intro exI [of _ n] conjI impI, fact eq) (simp add: eq RowEntries_def)
qed

subsection \<open>The rows against the specification\<close>

text \<open>The entries the specification gives an active section, in its words: the primary
  range, all-open for an infinite section; when the lower bound is closed and the pre-roll
  duration is positive, an entry tagged PreRoll for the window of that duration
  immediately before the lower bound; when the upper bound is closed and the post-roll
  duration is positive, an entry tagged PostRoll for the window of that duration
  immediately after the upper bound; each with the identity and the priority of the
  parent. Immediately before a lower bound and immediately after an upper bound is the
  bound with its inclusion flipped (section 3 of the specification). The specification
  does not say whether the far end of a window belongs to it; it is taken inclusive.\<close>

definition SpecRowEntries ::
  "nat \<Rightarrow> nat \<Rightarrow> 'a::{linorder,zero,plus,minus} UMovieSceneSection \<Rightarrow> 'a FMovieSceneSectionRowData list" where
  "SpecRowEntries Index Identity Section =
     (let Primary = (if IsInfinite Section then TRange Open Open else GetRange Section);
          Entry = (\<lambda>Window Tag.
                     \<lparr>Bounds = Window, EvalData = \<lparr>ImplIndex = int Identity, Flags = Tag\<rparr>,
                      Priority = GetOverlapPriority Section, ActualSectionIndex = int Index\<rparr>)
      in [Entry Primary NoFlags] @
         (if \<not> IsOpen (GetLowerBound Primary) \<and> 0 < GetPreRollTime Section
          then [Entry (TRange (Inclusive (GetValue (GetLowerBound Primary) - GetPreRollTime Section))
                              (FlipInclusion (GetLowerBound Primary))) PreRoll]
          else []) @
         (if \<not> IsOpen (GetUpperBound Primary) \<and> 0 < GetPostRollTime Section
          then [Entry (TRange (FlipInclusion (GetUpperBound Primary))
                              (Inclusive (GetValue (GetUpperBound Primary) + GetPostRollTime Section))) PostRoll]
          else []))"

text \<open>Where the bounds of the section are inclusive or open, the constructor adds the
  entries of the specification.\<close>

lemma RowEntries_inclusive:
  assumes "\<And>v. GetLowerBound (GetRange Section) \<noteq> Exclusive v"
    and "\<And>v. GetUpperBound (GetRange Section) \<noteq> Exclusive v"
  shows "RowEntries Index Identity Section = SpecRowEntries Index Identity Section"
  using assms
  by (cases "GetLowerBound (GetRange Section)"; cases "GetUpperBound (GetRange Section)")
     (auto simp add: RowEntries_def SpecRowEntries_def Let_def)

lemma RowEntries_infinite:
  "IsInfinite Section \<Longrightarrow> RowEntries Index Identity Section = SpecRowEntries Index Identity Section"
  by (simp add: RowEntries_def SpecRowEntries_def Let_def)

lemma FRows_spec_entries:
  assumes "i < length SectionList" and "SectionList ! i = Some Section" and "IsActive Section"
    and "\<And>v. GetLowerBound (GetRange Section) \<noteq> Exclusive v"
    and "\<And>v. GetUpperBound (GetRange Section) \<noteq> Exclusive v"
  shows "\<exists>n. filter (\<lambda>d. ActualSectionIndex d = int i) (concat (map Sections (FRows SectionList Rules))) =
               SpecRowEntries i n Section"
proof -
  from FRows_row_entries [OF assms(1,2,3), of Rules] obtain n where
    "filter (\<lambda>d. ActualSectionIndex d = int i) (concat (map Sections (FRows SectionList Rules))) =
       RowEntries i n Section"
    by blast
  with RowEntries_inclusive [of Section i n, OF assms(4,5)] show ?thesis
    by auto
qed

text \<open>A section over [5, 10) in row 0 with pre-roll 5 and post-roll 3: its upper bound
  is exclusive.\<close>

definition RolledSection :: "int UMovieSceneSection" where
  "RolledSection =
     \<lparr>IsActive = True, GetRowIndex = 0, IsInfinite = False,
      GetRange = TRange (Inclusive 5) (Exclusive 10),
      GetPreRollTime = 5, GetPostRollTime = 3, GetOverlapPriority = 2\<rparr>"

text \<open>C9: for the section over [5, 10) with post-roll 3 the constructor adds the
  post-roll entry over (10, 13], where immediately after the upper bound is [10, 13]: the
  time 10 is neither in the range of the section nor in the post-roll window, and the two
  ranges do not adjoin. The primary entry and the pre-roll entry over [0, 5), before the
  inclusive lower bound, are those of the specification.\<close>

theorem FRows_post_roll_apart:
  "concat (map Sections (FRows [Some RolledSection] None)) =
     [\<lparr>Bounds = TRange (Inclusive 5) (Exclusive 10), EvalData = \<lparr>ImplIndex = 0, Flags = NoFlags\<rparr>,
       Priority = 2, ActualSectionIndex = 0\<rparr>,
      \<lparr>Bounds = TRange (Inclusive 0) (Exclusive 5), EvalData = \<lparr>ImplIndex = 0, Flags = PreRoll\<rparr>,
       Priority = 2, ActualSectionIndex = 0\<rparr>,
      \<lparr>Bounds = TRange (Exclusive 10) (Inclusive 13), EvalData = \<lparr>ImplIndex = 0, Flags = PostRoll\<rparr>,
       Priority = 2, ActualSectionIndex = 0\<rparr>] \<and>
   SpecRowEntries 0 0 RolledSection =
     [\<lparr>Bounds = TRange (Inclusive 5) (Exclusive 10), EvalData = \<lparr>ImplIndex = 0, Flags = NoFlags\<rparr>,
       Priority = 2, ActualSectionIndex = 0\<rparr>,
      \<lparr>Bounds = TRange (Inclusive 0) (Exclusive 5), EvalData = \<lparr>ImplIndex = 0, Flags = PreRoll\<rparr>,
       Priority = 2, ActualSectionIndex = 0\<rparr>,
      \<lparr>Bounds = TRange (Inclusive 10) (Inclusive 13), EvalData = \<lparr>ImplIndex = 0, Flags = PostRoll\<rparr>,
       Priority = 2, ActualSectionIndex = 0\<rparr>] \<and>
   \<not> ContainsElement (TRange (Inclusive 5) (Exclusive (10::int))) 10 \<and>
   \<not> ContainsElement (TRange (Exclusive 10) (Inclusive (13::int))) 10 \<and>
   ContainsElement (TRange (Inclusive 10) (Inclusive (13::int))) 10 \<and>
   \<not> Adjoins (TRange (Inclusive 5) (Exclusive (10::int))) (TRange (Exclusive 10) (Inclusive 13)) \<and>
   Adjoins (TRange (Inclusive 5) (Exclusive (10::int))) (TRange (Inclusive 10) (Inclusive 13))"
  by (simp add: RolledSection_def FRows_def AddSection_def EnsureRow_def AddRowData_def Let_def
        SpecRowEntries_def ContainsElement_def Adjoins_def)

section \<open>The overlapping sections as a multiset\<close>

text \<open>The overlapping list with its reference counts stands for a multiset of evaluation
  data: each entry as often as its count says.\<close>

definition RefCounted :: "'e list \<Rightarrow> int list \<Rightarrow> 'e multiset" where
  "RefCounted es cs = (\<Sum>p \<in># mset (zip es cs). replicate_mset (nat (snd p)) (fst p))"

definition WfCounts :: "'e list \<Rightarrow> int list \<Rightarrow> bool" where
  "WfCounts es cs \<longleftrightarrow> distinct es \<and> length cs = length es \<and> (\<forall>c \<in> set cs. 0 < c)"

lemma RefCounted_Nil [simp]: "RefCounted [] cs = {#}" "RefCounted es [] = {#}"
  by (simp_all add: RefCounted_def)

lemma RefCounted_Cons [simp]:
  "RefCounted (e # es) (c # cs) = replicate_mset (nat c) e + RefCounted es cs"
  by (simp add: RefCounted_def)

lemma RefCounted_snoc:
  "length cs = length es \<Longrightarrow> RefCounted (es @ [e]) (cs @ [c]) = RefCounted es cs + replicate_mset (nat c) e"
  by (simp add: RefCounted_def)

lemma IndexOfByKey_None: "IndexOfByKey xs k = None \<longleftrightarrow> k \<notin> set xs"
  by (induction xs) (auto split: option.splits)

lemma IndexOfByKey_Some: "IndexOfByKey xs k = Some i \<Longrightarrow> i < length xs \<and> xs ! i = k"
  by (induction xs arbitrary: i) (auto split: option.splits if_splits)

lemma set_mset_RefCounted:
  "WfCounts es cs \<Longrightarrow> set_mset (RefCounted es cs) = set es"
proof (induction es arbitrary: cs)
  case Nil
  then show ?case by simp
next
  case (Cons e es)
  then obtain c cs' where cs: "cs = c # cs'" by (cases cs) (auto simp add: WfCounts_def)
  with Cons.prems have "WfCounts es cs'" "0 < c" by (auto simp add: WfCounts_def)
  with Cons.IH [of cs'] cs show ?case by auto
qed

lemma RefCounted_empty_iff: "WfCounts es cs \<Longrightarrow> RefCounted es cs = {#} \<longleftrightarrow> es = []"
  using set_mset_RefCounted [of es cs] by (metis set_empty set_mset_eq_empty_iff)

lemma RefCounted_update:
  assumes "i < length es" "length cs = length es" "0 \<le> cs ! i" "0 \<le> c"
  shows "RefCounted es (cs[i := c]) + replicate_mset (nat (cs ! i)) (es ! i) =
         RefCounted es cs + replicate_mset (nat c) (es ! i)"
  using assms
proof (induction es arbitrary: cs i)
  case Nil
  then show ?case by simp
next
  case (Cons e es)
  then obtain c0 cs' where cs: "cs = c0 # cs'" by (cases cs) auto
  show ?case
  proof (cases i)
    case 0
    with cs show ?thesis by simp
  next
    case (Suc k)
    with Cons.prems cs Cons.IH [of k cs'] show ?thesis
      by (simp add: ac_simps)
  qed
qed

lemma mset_RemoveAtSwap:
  "i < length xs \<Longrightarrow> mset (RemoveAtSwap xs i) = mset xs - {#xs ! i#}"
proof (induction xs arbitrary: i rule: rev_induct)
  case Nil
  then show ?case by simp
next
  case (snoc x xs)
  show ?case
  proof (cases "i = length xs")
    case True
    then show ?thesis by (simp add: RemoveAtSwap_def)
  next
    case False
    with snoc.prems have i: "i < length xs" by simp
    then have "mset (xs[i := x]) = mset xs - {#xs ! i#} + {#x#}"
      by (simp add: mset_update)
    with i show ?thesis
      by (simp add: RemoveAtSwap_def list_update_append nth_append)
  qed
qed

lemma zip_RemoveAtSwap:
  assumes "length ys = length xs"
  shows "zip (RemoveAtSwap xs i) (RemoveAtSwap ys i) = RemoveAtSwap (zip xs ys) i"
proof (cases "i < length xs")
  case False
  with assms show ?thesis by (simp add: RemoveAtSwap_def)
next
  case True
  then have ne: "xs \<noteq> []" "ys \<noteq> []" "zip xs ys \<noteq> []" using assms by auto
  have l: "last (zip xs ys) = (last xs, last ys)"
    using ne assms by (simp add: last_conv_nth)
  have "take (length xs - 1) ((zip xs ys)[i := (last xs, last ys)]) =
        zip (take (length xs - 1) (xs[i := last xs])) (take (length xs - 1) (ys[i := last ys]))"
    by (simp only: zip_update [symmetric] take_zip)
  with True assms l show ?thesis
    by (simp add: RemoveAtSwap_def butlast_conv_take)
qed

lemma RefCounted_RemoveAtSwap:
  assumes "i < length es" "length cs = length es"
  shows "RefCounted (RemoveAtSwap es i) (RemoveAtSwap cs i) =
         RefCounted es cs - replicate_mset (nat (cs ! i)) (es ! i)"
proof -
  have "mset (zip (RemoveAtSwap es i) (RemoveAtSwap cs i)) = mset (zip es cs) - {#(es ! i, cs ! i)#}"
    using assms by (simp add: zip_RemoveAtSwap mset_RemoveAtSwap)
  moreover have "(es ! i, cs ! i) \<in># mset (zip es cs)"
    using assms by (auto simp add: set_zip)
  ultimately have "mset (zip es cs) = add_mset (es ! i, cs ! i) (mset (zip (RemoveAtSwap es i) (RemoveAtSwap cs i)))"
    by simp
  then have "RefCounted es cs =
      replicate_mset (nat (cs ! i)) (es ! i) + RefCounted (RemoveAtSwap es i) (RemoveAtSwap cs i)"
    unfolding RefCounted_def by simp
  then show ?thesis by simp
qed

lemma RemoveAtSwap_length: "i < length xs \<Longrightarrow> length (RemoveAtSwap xs i) = length xs - 1"
  by (simp add: RemoveAtSwap_def)

lemma RemoveAtSwap_set: "set (RemoveAtSwap xs i) \<subseteq> set xs"
proof (cases "i < length xs")
  case True
  then have "mset (RemoveAtSwap xs i) \<subseteq># mset xs"
    by (simp add: mset_RemoveAtSwap)
  then show ?thesis by (metis set_mset_mono set_mset_mset)
next
  case False
  then show ?thesis by (simp add: RemoveAtSwap_def)
qed

lemma distinct_by_count: "(\<And>a. count (mset ys) a \<le> 1) \<Longrightarrow> distinct ys"
proof (induction ys)
  case Nil
  then show ?case by simp
next
  case (Cons y ys)
  from Cons.prems [of y] have "count (mset ys) y = 0" by simp
  then have "y \<notin> set ys" by (simp add: count_eq_zero_iff)
  moreover have "count (mset ys) a \<le> 1" for a
  proof -
    have "count (mset ys) a \<le> count (mset (y # ys)) a" by simp
    also have "\<dots> \<le> 1" by (rule Cons.prems)
    finally show ?thesis .
  qed
  ultimately show ?case using Cons.IH by simp
qed

lemma distinct_submset: "mset ys \<subseteq># mset xs \<Longrightarrow> distinct xs \<Longrightarrow> distinct ys"
proof (rule distinct_by_count)
  fix a
  assume sub: "mset ys \<subseteq># mset xs" and d: "distinct xs"
  have "count (mset ys) a \<le> count (mset xs) a"
    using sub by (rule mset_subset_eq_count)
  also have "\<dots> \<le> 1"
    using d by (simp add: distinct_count_atmost_1)
  finally show "count (mset ys) a \<le> 1" .
qed

lemma RemoveAtSwap_distinct: "distinct xs \<Longrightarrow> distinct (RemoveAtSwap xs i)"
proof (cases "i < length xs")
  case True
  assume "distinct xs"
  moreover have "mset (RemoveAtSwap xs i) \<subseteq># mset xs"
    using True by (simp add: mset_RemoveAtSwap)
  ultimately show ?thesis
    by (rule distinct_submset [rotated])
next
  case False
  assume "distinct xs"
  with False show ?thesis by (simp add: RemoveAtSwap_def)
qed

text \<open>Adding a section to the overlapping list adds it to the multiset.\<close>

lemma AddOverlapping_counts:
  assumes "WfCounts (OverlappingSections st) (OverlappingRefCounts st)"
  shows "WfCounts (OverlappingSections (AddOverlapping e st)) (OverlappingRefCounts (AddOverlapping e st)) \<and>
         RefCounted (OverlappingSections (AddOverlapping e st)) (OverlappingRefCounts (AddOverlapping e st)) =
           add_mset e (RefCounted (OverlappingSections st) (OverlappingRefCounts st))"
proof (cases "IndexOfByKey (OverlappingSections st) e")
  case None
  then have "e \<notin> set (OverlappingSections st)" by (simp add: IndexOfByKey_None)
  with assms None show ?thesis
    by (simp add: AddOverlapping_def WfCounts_def RefCounted_snoc)
next
  case (Some i)
  let ?es = "OverlappingSections st" and ?cs = "OverlappingRefCounts st"
  from IndexOfByKey_Some [OF Some] have i: "i < length ?es" "?es ! i = e" by simp_all
  with assms have pos: "0 < ?cs ! i" by (simp add: WfCounts_def)
  from assms have len: "length ?cs = length ?es" by (simp add: WfCounts_def)
  have "RefCounted ?es (?cs[i := ?cs ! i + 1]) + replicate_mset (nat (?cs ! i)) (?es ! i) =
        RefCounted ?es ?cs + replicate_mset (nat (?cs ! i + 1)) (?es ! i)"
    using RefCounted_update [of i ?es ?cs "?cs ! i + 1"] i len pos by simp
  moreover have "nat (?cs ! i + 1) = Suc (nat (?cs ! i))" using pos by simp
  ultimately have "RefCounted ?es (?cs[i := ?cs ! i + 1]) = add_mset e (RefCounted ?es ?cs)"
    using i by simp
  moreover have "WfCounts ?es (?cs[i := ?cs ! i + 1])"
    using assms pos by (auto simp add: WfCounts_def dest!: set_update_subset_insert [THEN subsetD])
  ultimately show ?thesis
    using Some by (simp add: AddOverlapping_def)
qed

text \<open>Removing a section that is in the multiset removes it once.\<close>

lemma RemoveOverlapping_counts:
  assumes "WfCounts (OverlappingSections st) (OverlappingRefCounts st)"
    and "e \<in># RefCounted (OverlappingSections st) (OverlappingRefCounts st)"
  shows "WfCounts (OverlappingSections (RemoveOverlapping e st)) (OverlappingRefCounts (RemoveOverlapping e st)) \<and>
         RefCounted (OverlappingSections (RemoveOverlapping e st)) (OverlappingRefCounts (RemoveOverlapping e st)) =
           RefCounted (OverlappingSections st) (OverlappingRefCounts st) - {#e#}"
proof -
  let ?es = "OverlappingSections st" and ?cs = "OverlappingRefCounts st"
  from assms have "e \<in> set ?es" by (simp add: set_mset_RefCounted)
  then obtain i where Some: "IndexOfByKey ?es e = Some i"
    by (cases "IndexOfByKey ?es e") (simp_all add: IndexOfByKey_None)
  from IndexOfByKey_Some [OF Some] have i: "i < length ?es" "?es ! i = e" by simp_all
  with assms have pos: "0 < ?cs ! i" and len: "length ?cs = length ?es" by (simp_all add: WfCounts_def)
  have upd: "RefCounted ?es (?cs[i := ?cs ! i - 1]) + replicate_mset (nat (?cs ! i)) (?es ! i) =
        RefCounted ?es ?cs + replicate_mset (nat (?cs ! i - 1)) (?es ! i)"
    using RefCounted_update [of i ?es ?cs "?cs ! i - 1"] i len pos by simp
  have suc: "nat (?cs ! i) = Suc (nat (?cs ! i - 1))" using pos by simp
  from upd have "add_mset e (RefCounted ?es (?cs[i := ?cs ! i - 1])) = RefCounted ?es ?cs"
    unfolding suc using i by simp
  then have dec: "RefCounted ?es (?cs[i := ?cs ! i - 1]) = RefCounted ?es ?cs - {#e#}"
    by (metis add_mset_remove_trivial)
  show ?thesis
  proof (cases "?cs ! i - 1 = 0")
    case True
    let ?cs' = "?cs[i := ?cs ! i - 1]"
    have "RefCounted (RemoveAtSwap ?es i) (RemoveAtSwap ?cs' i) =
          RefCounted ?es ?cs' - replicate_mset (nat (?cs' ! i)) (?es ! i)"
      using i len by (intro RefCounted_RemoveAtSwap) simp_all
    with True i len dec have rc: "RefCounted (RemoveAtSwap ?es i) (RemoveAtSwap ?cs' i) = RefCounted ?es ?cs - {#e#}"
      by simp
    have "set (RemoveAtSwap ?cs' i) \<subseteq> set ?cs"
    proof
      fix c assume "c \<in> set (RemoveAtSwap ?cs' i)"
      then have "c \<in># mset ?cs' - {#?cs' ! i#}"
        using i len by (metis length_list_update mset_RemoveAtSwap set_mset_mset)
      moreover have "mset ?cs' - {#?cs' ! i#} = mset ?cs - {#?cs ! i#}"
        using i len by (simp add: mset_update)
      ultimately show "c \<in> set ?cs" by (metis in_diffD set_mset_mset)
    qed
    with assms i len have "WfCounts (RemoveAtSwap ?es i) (RemoveAtSwap ?cs' i)"
      by (auto simp add: WfCounts_def RemoveAtSwap_distinct RemoveAtSwap_length)
    with rc True Some show ?thesis
      by (simp add: RemoveOverlapping_def)
  next
    case False
    with pos have "0 < ?cs ! i - 1" by simp
    with assms have "WfCounts ?es (?cs[i := ?cs ! i - 1])"
      by (auto simp add: WfCounts_def dest!: set_update_subset_insert [THEN subsetD])
    with dec False Some show ?thesis
      by (simp add: RemoveOverlapping_def)
  qed
qed

section \<open>The bound lists of a section list\<close>

definition lkey :: "'a FBound \<Rightarrow> 'a cut" where
  "lkey x = lcut (Bound x)"

definition ukey :: "'a FBound \<Rightarrow> 'a cut" where
  "ukey y = ucut (Bound y)"

text \<open>The evaluation data active at a cut of the time line, read off the two bound
  lists: what has started at the cut less what has finished at the cut.\<close>

definition ActiveAt :: "'a::linorder FBound list \<Rightarrow> 'a FBound list \<Rightarrow> 'a cut \<Rightarrow> FSectionEvaluationData multiset" where
  "ActiveAt L U c =
     image_mset BoundEvalData (filter_mset (\<lambda>x. lkey x \<le> c) (mset L)) -
     image_mset BoundEvalData (filter_mset (\<lambda>y. ukey y \<le> c) (mset U))"

text \<open>What the sweep needs of its two bound lists: both are sorted, they carry the same
  evaluation data, and up to any cut no more bounds of an evaluation data have finished
  than have started strictly before it.\<close>

definition Balanced :: "'a::linorder FBound list \<Rightarrow> 'a FBound list \<Rightarrow> bool" where
  "Balanced L U \<longleftrightarrow>
     sorted (map lkey L) \<and> sorted (map ukey U) \<and>
     image_mset BoundEvalData (mset U) = image_mset BoundEvalData (mset L) \<and>
     (\<forall>c. image_mset BoundEvalData (filter_mset (\<lambda>y. ukey y \<le> c) (mset U)) \<subseteq>#
          image_mset BoundEvalData (filter_mset (\<lambda>x. lkey x < c) (mset L)))"

lemma IsEmpty_cut: "IsEmpty r \<longleftrightarrow> ucut (GetUpperBound r) \<le> lcut (GetLowerBound r)"
  by (cases r) (simp add: IsEmpty_iff)

lemma NonEmptySections_cut:
  "s \<in> set (NonEmptySections Data) \<Longrightarrow> lcut (GetLowerBound (Bounds s)) < ucut (GetUpperBound (Bounds s))"
  by (auto simp add: NonEmptySections_def IsEmpty_cut)

lemma InitialBuffers_msets:
  "mset (LowerBounds (InitialBuffers Data)) =
     image_mset (\<lambda>Section. \<lparr>BoundEvalData = EvalData Section, Bound = GetLowerBound (Bounds Section)\<rparr>)
       (mset (NonEmptySections Data))"
  "mset (UpperBounds (InitialBuffers Data)) =
     image_mset (\<lambda>Section. \<lparr>BoundEvalData = EvalData Section, Bound = GetUpperBound (Bounds Section)\<rparr>)
       (mset (NonEmptySections Data))"
  by (simp_all add: InitialBuffers_def)

lemma InitialBuffers_started:
  "image_mset BoundEvalData (filter_mset (\<lambda>x. P (lkey x)) (mset (LowerBounds (InitialBuffers Data)))) =
   image_mset EvalData (filter_mset (\<lambda>s. P (lcut (GetLowerBound (Bounds s)))) (mset (NonEmptySections Data)))"
  by (simp add: InitialBuffers_msets filter_mset_image_mset image_mset.compositionality comp_def lkey_def)

lemma InitialBuffers_finished:
  "image_mset BoundEvalData (filter_mset (\<lambda>y. P (ukey y)) (mset (UpperBounds (InitialBuffers Data)))) =
   image_mset EvalData (filter_mset (\<lambda>s. P (ucut (GetUpperBound (Bounds s)))) (mset (NonEmptySections Data)))"
  by (simp add: InitialBuffers_msets filter_mset_image_mset image_mset.compositionality comp_def ukey_def)

lemma Balanced_InitialBuffers:
  "Balanced (LowerBounds (InitialBuffers Data)) (UpperBounds (InitialBuffers Data))"
proof -
  have kl: "\<And>A B :: 'a FBound. (MinLower (Bound A) (Bound B) = Bound A) \<longleftrightarrow> lkey A \<le> lkey B"
    by (simp add: MinLower_iff lkey_def)
  have ku: "\<And>A B :: 'a FBound. (MinUpper (Bound A) (Bound B) = Bound A) \<longleftrightarrow> ukey A \<le> ukey B"
    by (simp add: MinUpper_iff ukey_def)
  have 1: "sorted (map lkey (LowerBounds (InitialBuffers Data)))"
    unfolding InitialBuffers_def by (simp add: Sort_sorted [OF kl])
  have 2: "sorted (map ukey (UpperBounds (InitialBuffers Data)))"
    unfolding InitialBuffers_def by (simp add: Sort_sorted [OF ku])
  have 3: "image_mset BoundEvalData (mset (UpperBounds (InitialBuffers Data))) =
           image_mset BoundEvalData (mset (LowerBounds (InitialBuffers Data)))"
    by (simp add: InitialBuffers_msets image_mset.compositionality comp_def)
  have 4: "image_mset BoundEvalData (filter_mset (\<lambda>y. ukey y \<le> c) (mset (UpperBounds (InitialBuffers Data)))) \<subseteq>#
           image_mset BoundEvalData (filter_mset (\<lambda>x. lkey x < c) (mset (LowerBounds (InitialBuffers Data))))" for c
  proof -
    have "filter_mset (\<lambda>s. ucut (GetUpperBound (Bounds s)) \<le> c) (mset (NonEmptySections Data)) \<subseteq>#
          filter_mset (\<lambda>s. lcut (GetLowerBound (Bounds s)) < c) (mset (NonEmptySections Data))"
      using NonEmptySections_cut [of _ Data]
      by (intro filter_mset_mono_strong) (auto intro: less_le_trans)
    then show ?thesis
      unfolding InitialBuffers_started [of "\<lambda>k. k < c"] InitialBuffers_finished [of "\<lambda>k. k \<le> c"]
      by (rule image_mset_subseteq_mono)
  qed
  from 1 2 3 4 show ?thesis
    unfolding Balanced_def by blast
qed

lemma ActiveAt_InitialBuffers:
  "ActiveAt (LowerBounds (InitialBuffers Data)) (UpperBounds (InitialBuffers Data)) c =
   image_mset EvalData
     (filter_mset (\<lambda>s. lcut (GetLowerBound (Bounds s)) \<le> c \<and> c < ucut (GetUpperBound (Bounds s)))
        (mset (NonEmptySections Data)))"
proof -
  let ?M = "mset (NonEmptySections Data)"
  let ?A = "filter_mset (\<lambda>s. lcut (GetLowerBound (Bounds s)) \<le> c) ?M"
  let ?B = "filter_mset (\<lambda>s. ucut (GetUpperBound (Bounds s)) \<le> c) ?M"
  have sub: "?B \<subseteq># ?A"
    using NonEmptySections_cut [of _ Data]
    by (intro filter_mset_mono_strong) (auto intro: less_imp_le less_le_trans)
  have "?A - ?B = filter_mset (\<lambda>s. lcut (GetLowerBound (Bounds s)) \<le> c \<and> c < ucut (GetUpperBound (Bounds s))) ?M"
  proof (rule multiset_eqI)
    fix s
    show "count (?A - ?B) s =
          count (filter_mset (\<lambda>s. lcut (GetLowerBound (Bounds s)) \<le> c \<and> c < ucut (GetUpperBound (Bounds s))) ?M) s"
      using NonEmptySections_cut [of s Data]
      by (cases "s \<in> set (NonEmptySections Data)") (auto simp add: not_le count_eq_zero_iff)
  qed
  moreover have "image_mset EvalData ?A - image_mset EvalData ?B = image_mset EvalData (?A - ?B)"
    using sub by (simp add: image_mset_Diff)
  ultimately show ?thesis
    unfolding ActiveAt_def InitialBuffers_started [of "\<lambda>k. k \<le> c"] InitialBuffers_finished [of "\<lambda>k. k \<le> c"]
    by simp
qed

section \<open>The invariant of the sweep\<close>

definition slo :: "'a FMovieSceneSegment \<Rightarrow> 'a cut" where
  "slo s = lcut (GetLowerBound (Range' s))"

definition shi :: "'a FMovieSceneSegment \<Rightarrow> 'a cut" where
  "shi s = ucut (GetUpperBound (Range' s))"

text \<open>A finished segment is not empty and lists, at each cut it spans, the evaluation
  data active there.\<close>

definition SegFinal :: "'a::linorder FBound list \<Rightarrow> 'a FBound list \<Rightarrow> 'a FMovieSceneSegment \<Rightarrow> bool" where
  "SegFinal L U s \<longleftrightarrow>
     slo s < shi s \<and>
     (\<forall>c. slo s \<le> c \<and> c < shi s \<longrightarrow> set (Impls s) = set_mset (ActiveAt L U c))"

text \<open>Up to a position, every cut is spanned by a segment or has nothing active.\<close>

definition Covered :: "'a::linorder FBound list \<Rightarrow> 'a FBound list \<Rightarrow> 'a FMovieSceneSegment list \<Rightarrow> 'a cut \<Rightarrow> bool" where
  "Covered L U segs pos \<longleftrightarrow>
     (\<forall>c. c < pos \<longrightarrow> (\<exists>s \<in> set segs. slo s \<le> c \<and> c < shi s) \<or> ActiveAt L U c = {#})"

text \<open>The finished segments up to a position: each is finished and ends at or before
  the position, each ends at or before the start of the next, and they cover what is
  active before the position.\<close>

definition Finals :: "'a::linorder FBound list \<Rightarrow> 'a FBound list \<Rightarrow> 'a FMovieSceneSegment list \<Rightarrow> 'a cut \<Rightarrow> bool" where
  "Finals L U segs pos \<longleftrightarrow>
     (\<forall>s \<in> set segs. SegFinal L U s \<and> shi s \<le> pos) \<and>
     sorted_wrt (\<lambda>s t. shi s \<le> slo t) segs \<and>
     Covered L U segs pos"

text \<open>The read indices split the bound lists at the position of the sweep.\<close>

definition Split :: "'a::linorder FBound list \<Rightarrow> 'a FBound list \<Rightarrow> nat \<Rightarrow> nat \<Rightarrow> 'a cut \<Rightarrow> bool" where
  "Split L U i j pos \<longleftrightarrow>
     i \<le> length L \<and> j \<le> length U \<and>
     (\<forall>x \<in> set (take i L). lkey x \<le> pos) \<and> (\<forall>x \<in> set (drop i L). pos \<le> lkey x) \<and>
     (\<forall>y \<in> set (take j U). ukey y \<le> pos) \<and> (\<forall>y \<in> set (drop j U). pos < ukey y) \<and>
     (0 < i \<longrightarrow> (\<forall>x \<in> set (drop i L). NegInf < lkey x))"

text \<open>The overlapping list holds what has been started and not finished.\<close>

definition Counted ::
  "'a FBound list \<Rightarrow> 'a FBound list \<Rightarrow> nat \<Rightarrow> nat \<Rightarrow> FSectionEvaluationData list \<Rightarrow> int list \<Rightarrow> bool" where
  "Counted L U i j es cs \<longleftrightarrow>
     WfCounts es cs \<and>
     image_mset BoundEvalData (mset (take j U)) \<subseteq># image_mset BoundEvalData (mset (take i L)) \<and>
     RefCounted es cs =
       image_mset BoundEvalData (mset (take i L)) - image_mset BoundEvalData (mset (take j U))"

definition Core :: "'a::linorder FMovieSceneSegmentCompiler \<Rightarrow> 'a cut \<Rightarrow> bool" where
  "Core st pos \<longleftrightarrow>
     Balanced (LowerBounds st) (UpperBounds st) \<and>
     Counted (LowerBounds st) (UpperBounds st) (LowerReadIndex st) (UpperReadIndex st)
       (OverlappingSections st) (OverlappingRefCounts st) \<and>
     Split (LowerBounds st) (UpperBounds st) (LowerReadIndex st) (UpperReadIndex st) pos"

text \<open>At the head of the loops: with nothing overlapping all segments are finished;
  otherwise the last segment is open, starts at the position and lists the overlapping
  sections.\<close>

definition Head :: "'a::linorder FMovieSceneSegmentCompiler \<Rightarrow> bool" where
  "Head st \<longleftrightarrow>
     (\<exists>pos. Core st pos \<and>
        (if OverlappingSections st = []
         then Finals (LowerBounds st) (UpperBounds st) (CompiledSegments st) pos
         else (\<exists>fin lo. CompiledSegments st =
                           fin @ [\<lparr>Range' = TRange lo Open, Impls = OverlappingSections st\<rparr>] \<and>
                         lcut lo = pos \<and>
                         Finals (LowerBounds st) (UpperBounds st) fin pos)))"

text \<open>After CloseCompletedSegments with a lower bound left to read: all segments are
  finished up to that lower bound.\<close>

definition Ready :: "'a::linorder FMovieSceneSegmentCompiler \<Rightarrow> bool" where
  "Ready st \<longleftrightarrow>
     LowerReadIndex st < length (LowerBounds st) \<and>
     Core st (lkey (LowerBounds st ! LowerReadIndex st)) \<and>
     Finals (LowerBounds st) (UpperBounds st) (CompiledSegments st)
       (lkey (LowerBounds st ! LowerReadIndex st))"

text \<open>After CloseCompletedSegments with all bounds read.\<close>

definition Done :: "'a::linorder FMovieSceneSegmentCompiler \<Rightarrow> bool" where
  "Done st \<longleftrightarrow>
     LowerReadIndex st = length (LowerBounds st) \<and>
     UpperReadIndex st = length (UpperBounds st) \<and>
     OverlappingSections st = [] \<and>
     (\<exists>pos. Core st pos \<and> Finals (LowerBounds st) (UpperBounds st) (CompiledSegments st) pos)"

subsection \<open>Sorted lists around an index\<close>

lemma sorted_from:
  "sorted (map k xs) \<Longrightarrow> n < length xs \<Longrightarrow> x \<in> set (drop n xs) \<Longrightarrow> k (xs ! n) \<le> k x"
  by (auto simp add: in_set_conv_nth sorted_iff_nth_mono)

lemma sorted_upto:
  "sorted (map k xs) \<Longrightarrow> n < length xs \<Longrightarrow> x \<in> set (take (Suc n) xs) \<Longrightarrow> k x \<le> k (xs ! n)"
  by (auto simp add: in_set_conv_nth sorted_iff_nth_mono)

lemma mset_take_drop: "mset xs = mset (take n xs) + mset (drop n xs)"
  by (metis append_take_drop_id mset_append)

lemma filter_mset_all: "(\<And>x. x \<in># M \<Longrightarrow> P x) \<Longrightarrow> filter_mset P M = M"
  by (induction M) auto

lemma filter_mset_none: "(\<And>x. x \<in># M \<Longrightarrow> \<not> P x) \<Longrightarrow> filter_mset P M = {#}"
  by (induction M) auto

lemma filter_split:
  assumes "\<And>x. x \<in> set (take n xs) \<Longrightarrow> P x" and "\<And>x. x \<in> set (drop n xs) \<Longrightarrow> \<not> P x"
  shows "filter_mset P (mset xs) = mset (take n xs)"
proof -
  have "filter_mset P (mset xs) = filter_mset P (mset (take n xs)) + filter_mset P (mset (drop n xs))"
    by (subst mset_take_drop [of xs n]) simp
  also have "filter_mset P (mset (take n xs)) = mset (take n xs)"
    using assms(1) by (intro filter_mset_all) simp
  also have "filter_mset P (mset (drop n xs)) = {#}"
    using assms(2) by (intro filter_mset_none) simp
  finally show ?thesis by simp
qed

lemma filter_within:
  assumes "\<And>x. x \<in> set (drop n xs) \<Longrightarrow> \<not> P x"
  shows "filter_mset P (mset xs) \<subseteq># mset (take n xs)"
proof -
  have "filter_mset P (mset xs) = filter_mset P (mset (take n xs)) + filter_mset P (mset (drop n xs))"
    by (subst mset_take_drop [of xs n]) simp
  also have "filter_mset P (mset (drop n xs)) = {#}"
    using assms by (intro filter_mset_none) simp
  finally show ?thesis by simp
qed

lemma filter_covers:
  assumes "\<And>x. x \<in> set (take n xs) \<Longrightarrow> P x"
  shows "mset (take n xs) \<subseteq># filter_mset P (mset xs)"
proof -
  have "filter_mset P (mset xs) = filter_mset P (mset (take n xs)) + filter_mset P (mset (drop n xs))"
    by (subst mset_take_drop [of xs n]) simp
  also have "filter_mset P (mset (take n xs)) = mset (take n xs)"
    using assms by (intro filter_mset_all) simp
  finally show ?thesis by simp
qed

text \<open>Within a window that the read indices split, the active evaluation data are the
  started ones less the finished ones.\<close>

lemma ActiveAt_window:
  assumes "\<And>x. x \<in> set (take i L) \<Longrightarrow> lkey x \<le> c" and "\<And>x. x \<in> set (drop i L) \<Longrightarrow> c < lkey x"
    and "\<And>y. y \<in> set (take j U) \<Longrightarrow> ukey y \<le> c" and "\<And>y. y \<in> set (drop j U) \<Longrightarrow> c < ukey y"
  shows "ActiveAt L U c =
         image_mset BoundEvalData (mset (take i L)) - image_mset BoundEvalData (mset (take j U))"
proof -
  have "filter_mset (\<lambda>x. lkey x \<le> c) (mset L) = mset (take i L)"
    using assms(1,2) by (intro filter_split) (auto simp add: not_le)
  moreover have "filter_mset (\<lambda>y. ukey y \<le> c) (mset U) = mset (take j U)"
    using assms(3,4) by (intro filter_split) (auto simp add: not_le)
  ultimately show ?thesis by (simp add: ActiveAt_def)
qed

text \<open>Bounds that finish at or before a cut that no unread lower bound precedes have
  all been started.\<close>

lemma finished_started:
  assumes "Balanced L U"
    and "\<And>x. x \<in> set (drop i L) \<Longrightarrow> b \<le> lkey x"
    and "\<And>y. y \<in> set (take k U) \<Longrightarrow> ukey y \<le> b"
  shows "image_mset BoundEvalData (mset (take k U)) \<subseteq># image_mset BoundEvalData (mset (take i L))"
proof -
  have "mset (take k U) \<subseteq># filter_mset (\<lambda>y. ukey y \<le> b) (mset U)"
    using assms(3) by (rule filter_covers)
  then have "image_mset BoundEvalData (mset (take k U)) \<subseteq>#
             image_mset BoundEvalData (filter_mset (\<lambda>y. ukey y \<le> b) (mset U))"
    by (rule image_mset_subseteq_mono)
  also have "\<dots> \<subseteq># image_mset BoundEvalData (filter_mset (\<lambda>x. lkey x < b) (mset L))"
    using assms(1) by (simp add: Balanced_def)
  also have "\<dots> \<subseteq># image_mset BoundEvalData (mset (take i L))"
  proof (rule image_mset_subseteq_mono)
    show "filter_mset (\<lambda>x. lkey x < b) (mset L) \<subseteq># mset (take i L)"
      using assms(2) by (intro filter_within) (auto simp add: not_less)
  qed
  finally show ?thesis .
qed

lemma Balanced_length: "Balanced L U \<Longrightarrow> length U = length L"
proof -
  assume "Balanced L U"
  then have "size (image_mset BoundEvalData (mset U)) = size (image_mset BoundEvalData (mset L))"
    by (simp add: Balanced_def)
  then show ?thesis by simp
qed

lemma Counted_empty_indices:
  assumes "Counted L U i j [] cs" and "i \<le> length L" and "j \<le> length U"
  shows "i = j"
proof -
  let ?A = "image_mset BoundEvalData (mset (take i L))" and ?B = "image_mset BoundEvalData (mset (take j U))"
  from assms(1) have "?B \<subseteq># ?A" and "?A - ?B = {#}"
    by (simp_all add: Counted_def)
  then have "?A = ?B"
    by (metis Diff_eq_empty_iff_mset subset_mset.order_antisym)
  then have "size ?A = size ?B" by simp
  with assms(2,3) show ?thesis by simp
qed

text \<open>With nothing overlapping, the next lower bound comes before the next upper
  bound.\<close>

lemma Core_next_opening:
  assumes "Core st pos" and "OverlappingSections st = []"
    and "UpperReadIndex st < length (UpperBounds st)"
  shows "LowerReadIndex st < length (LowerBounds st) \<and>
         lkey (LowerBounds st ! LowerReadIndex st) < ukey (UpperBounds st ! UpperReadIndex st)"
proof -
  let ?L = "LowerBounds st" and ?U = "UpperBounds st"
  let ?i = "LowerReadIndex st" and ?j = "UpperReadIndex st"
  from assms(1) have bal: "Balanced ?L ?U"
    and cnt: "Counted ?L ?U ?i ?j (OverlappingSections st) (OverlappingRefCounts st)"
    and split: "Split ?L ?U ?i ?j pos"
    by (simp_all add: Core_def)
  from split have le: "?i \<le> length ?L" "?j \<le> length ?U" by (simp_all add: Split_def)
  from cnt assms(2) le have ij: "?i = ?j"
    using Counted_empty_indices [of ?L ?U ?i ?j "OverlappingRefCounts st"] by simp
  with assms(3) Balanced_length [OF bal] have i: "?i < length ?L" by simp
  have "lkey (?L ! ?i) < ukey (?U ! ?j)"
  proof (rule ccontr)
    assume "\<not> lkey (?L ! ?i) < ukey (?U ! ?j)"
    then have b: "ukey (?U ! ?j) \<le> lkey (?L ! ?i)" by simp
    have sl: "sorted (map lkey ?L)" and su: "sorted (map ukey ?U)"
      using bal by (simp_all add: Balanced_def)
    have "image_mset BoundEvalData (mset (take (Suc ?j) ?U)) \<subseteq>#
          image_mset BoundEvalData (mset (take ?i ?L))"
    proof (rule finished_started [OF bal, of ?i "ukey (?U ! ?j)"])
      fix x assume "x \<in> set (drop ?i ?L)"
      from sorted_from [OF sl i this] b show "ukey (?U ! ?j) \<le> lkey x" by simp
    next
      fix y assume "y \<in> set (take (Suc ?j) ?U)"
      from sorted_upto [OF su assms(3) this] show "ukey y \<le> ukey (?U ! ?j)" .
    qed
    then have "size (image_mset BoundEvalData (mset (take (Suc ?j) ?U))) \<le>
               size (image_mset BoundEvalData (mset (take ?i ?L)))"
      by (rule size_mset_mono)
    with assms(3) le ij show False by simp
  qed
  with i show ?thesis by simp
qed

subsection \<open>The inner loops\<close>

lemma in_diff_of_add_subset: "add_mset e A \<subseteq># M \<Longrightarrow> e \<in># M - A"
proof -
  assume "add_mset e A \<subseteq># M"
  then have "count (add_mset e A) e \<le> count M e" by (rule mset_subset_eq_count)
  then show ?thesis by (simp add: in_diff_count)
qed

lemma CloseFinished_counts:
  assumes "WfCounts (OverlappingSections st) (OverlappingRefCounts st)"
    and "RefCounted (OverlappingSections st) (OverlappingRefCounts st) =
           M - image_mset BoundEvalData (mset (take (UpperReadIndex st) (UpperBounds st)))"
    and "UpperReadIndex st \<le> length (UpperBounds st)"
    and "\<And>k. UpperReadIndex st \<le> k \<Longrightarrow> k \<le> length (UpperBounds st) \<Longrightarrow>
           (\<forall>m. UpperReadIndex st \<le> m \<and> m < k \<longrightarrow> Bound (UpperBounds st ! m) = cb) \<Longrightarrow>
           image_mset BoundEvalData (mset (take k (UpperBounds st))) \<subseteq># M"
  shows "WfCounts (OverlappingSections (CloseFinished cb st)) (OverlappingRefCounts (CloseFinished cb st)) \<and>
         RefCounted (OverlappingSections (CloseFinished cb st)) (OverlappingRefCounts (CloseFinished cb st)) =
           M - image_mset BoundEvalData (mset (take (UpperReadIndex (CloseFinished cb st)) (UpperBounds st))) \<and>
         UpperReadIndex st \<le> UpperReadIndex (CloseFinished cb st) \<and>
         UpperReadIndex (CloseFinished cb st) \<le> length (UpperBounds st) \<and>
         (\<forall>m. UpperReadIndex st \<le> m \<and> m < UpperReadIndex (CloseFinished cb st) \<longrightarrow>
              Bound (UpperBounds st ! m) = cb) \<and>
         (UpperReadIndex (CloseFinished cb st) < length (UpperBounds st) \<longrightarrow>
              Bound (UpperBounds st ! UpperReadIndex (CloseFinished cb st)) \<noteq> cb)"
  using assms
proof (induction cb st rule: CloseFinished.induct)
  case (1 cb st)
  let ?U = "UpperBounds st" and ?j = "UpperReadIndex st"
  show ?case
  proof (cases "?j < length ?U \<and> Bound (?U ! ?j) = cb")
    case False
    then have "CloseFinished cb st = st" by (rule CloseFinished_stop)
    with False "1.prems" show ?thesis by auto
  next
    case True
    let ?e = "BoundEvalData (?U ! ?j)"
    let ?st1 = "(RemoveOverlapping ?e st)\<lparr>UpperReadIndex := ?j + 1\<rparr>"
    from True have step: "CloseFinished cb st = CloseFinished cb ?st1"
      by (simp add: CloseFinished_step)
    have tk: "take (Suc ?j) ?U = take ?j ?U @ [?U ! ?j]"
      using True by (simp add: take_Suc_conv_app_nth)
    have "image_mset BoundEvalData (mset (take (Suc ?j) ?U)) \<subseteq># M"
      using True by (intro "1.prems"(4)) (auto simp add: le_less_Suc_eq)
    then have sub: "add_mset ?e (image_mset BoundEvalData (mset (take ?j ?U))) \<subseteq># M"
      by (simp add: tk)
    then have "?e \<in># RefCounted (OverlappingSections st) (OverlappingRefCounts st)"
      unfolding "1.prems"(2) by (rule in_diff_of_add_subset)
    from RemoveOverlapping_counts [OF "1.prems"(1) this]
    have wf1: "WfCounts (OverlappingSections ?st1) (OverlappingRefCounts ?st1)"
      and rc1: "RefCounted (OverlappingSections ?st1) (OverlappingRefCounts ?st1) =
                M - image_mset BoundEvalData (mset (take (UpperReadIndex ?st1) (UpperBounds ?st1)))"
      by (simp_all add: "1.prems"(2) tk)
    have le1: "UpperReadIndex ?st1 \<le> length (UpperBounds ?st1)"
      using True by simp
    have h1: "image_mset BoundEvalData (mset (take k (UpperBounds ?st1))) \<subseteq># M"
      if "UpperReadIndex ?st1 \<le> k" "k \<le> length (UpperBounds ?st1)"
        "\<forall>m. UpperReadIndex ?st1 \<le> m \<and> m < k \<longrightarrow> Bound (UpperBounds ?st1 ! m) = cb" for k
    proof -
      have "\<forall>m. ?j \<le> m \<and> m < k \<longrightarrow> Bound (?U ! m) = cb"
      proof (intro allI impI)
        fix m assume m: "?j \<le> m \<and> m < k"
        show "Bound (?U ! m) = cb"
        proof (cases "m = ?j")
          case True
          with \<open>?j < length ?U \<and> Bound (?U ! ?j) = cb\<close> show ?thesis by simp
        next
          case False
          with m that(3) show ?thesis by simp
        qed
      qed
      with that(1,2) show ?thesis
        using "1.prems"(4) [of k] by simp
    qed
    from "1.IH" [OF True wf1 rc1 le1 h1]
    have ih: "WfCounts (OverlappingSections (CloseFinished cb ?st1)) (OverlappingRefCounts (CloseFinished cb ?st1))"
      "RefCounted (OverlappingSections (CloseFinished cb ?st1)) (OverlappingRefCounts (CloseFinished cb ?st1)) =
           M - image_mset BoundEvalData (mset (take (UpperReadIndex (CloseFinished cb ?st1)) ?U))"
      "Suc ?j \<le> UpperReadIndex (CloseFinished cb ?st1)"
      "UpperReadIndex (CloseFinished cb ?st1) \<le> length ?U"
      "\<forall>m. Suc ?j \<le> m \<and> m < UpperReadIndex (CloseFinished cb ?st1) \<longrightarrow> Bound (?U ! m) = cb"
      "UpperReadIndex (CloseFinished cb ?st1) < length ?U \<longrightarrow>
         Bound (?U ! UpperReadIndex (CloseFinished cb ?st1)) \<noteq> cb"
      by simp_all
    have run: "\<forall>m. ?j \<le> m \<and> m < UpperReadIndex (CloseFinished cb ?st1) \<longrightarrow> Bound (?U ! m) = cb"
    proof (intro allI impI)
      fix m assume m: "?j \<le> m \<and> m < UpperReadIndex (CloseFinished cb ?st1)"
      show "Bound (?U ! m) = cb"
      proof (cases "m = ?j")
        case True
        with \<open>?j < length ?U \<and> Bound (?U ! ?j) = cb\<close> show ?thesis by simp
      next
        case False
        with m ih(5) show ?thesis by simp
      qed
    qed
    from ih run show ?thesis
      unfolding step by simp
  qed
qed

lemma OpenStarting_counts:
  assumes "WfCounts (OverlappingSections st) (OverlappingRefCounts st)"
    and "LowerReadIndex st < length (LowerBounds st)"
    and "Bound (LowerBounds st ! LowerReadIndex st) = ob"
  shows "WfCounts (OverlappingSections (OpenStarting ob st)) (OverlappingRefCounts (OpenStarting ob st)) \<and>
         RefCounted (OverlappingSections (OpenStarting ob st)) (OverlappingRefCounts (OpenStarting ob st)) +
           image_mset BoundEvalData (mset (take (LowerReadIndex st) (LowerBounds st))) =
         RefCounted (OverlappingSections st) (OverlappingRefCounts st) +
           image_mset BoundEvalData (mset (take (LowerReadIndex (OpenStarting ob st)) (LowerBounds st))) \<and>
         LowerReadIndex st < LowerReadIndex (OpenStarting ob st) \<and>
         LowerReadIndex (OpenStarting ob st) \<le> length (LowerBounds st) \<and>
         (\<forall>m. LowerReadIndex st \<le> m \<and> m < LowerReadIndex (OpenStarting ob st) \<longrightarrow>
              Bound (LowerBounds st ! m) = ob) \<and>
         (LowerReadIndex (OpenStarting ob st) < length (LowerBounds st) \<longrightarrow>
              Bound (LowerBounds st ! LowerReadIndex (OpenStarting ob st)) \<noteq> ob)"
  using assms
proof (induction ob st rule: OpenStarting.induct)
  case (1 ob st)
  let ?L = "LowerBounds st" and ?i = "LowerReadIndex st"
  let ?e = "BoundEvalData (?L ! ?i)"
  let ?st1 = "(AddOverlapping ?e st)\<lparr>LowerReadIndex := ?i + 1\<rparr>"
  have tk: "take (Suc ?i) ?L = take ?i ?L @ [?L ! ?i]"
    using "1.prems"(2) by (simp add: take_Suc_conv_app_nth)
  from AddOverlapping_counts [OF "1.prems"(1), of ?e]
  have rc0: "RefCounted (OverlappingSections (AddOverlapping ?e st)) (OverlappingRefCounts (AddOverlapping ?e st)) =
              add_mset ?e (RefCounted (OverlappingSections st) (OverlappingRefCounts st))"
    by simp
  from AddOverlapping_counts [OF "1.prems"(1), of ?e]
  have wf1: "WfCounts (OverlappingSections ?st1) (OverlappingRefCounts ?st1)"
    and rc1: "RefCounted (OverlappingSections ?st1) (OverlappingRefCounts ?st1) =
              add_mset ?e (RefCounted (OverlappingSections st) (OverlappingRefCounts st))"
    by simp_all
  show ?case
  proof (cases "?i + 1 < length ?L \<and> Bound (?L ! (?i + 1)) = ob")
    case False
    then have "OpenStarting ob st = ?st1" by (rule OpenStarting_stop)
    with False wf1 rc0 "1.prems" show ?thesis
      by (auto simp add: tk le_less_Suc_eq)
  next
    case True
    then have step: "OpenStarting ob st = OpenStarting ob ?st1"
      by (simp add: OpenStarting_step)
    have c: "LowerReadIndex ?st1 < length (LowerBounds ?st1) \<and>
             Bound (LowerBounds ?st1 ! LowerReadIndex ?st1) = ob"
      using True by simp
    from c have c1: "LowerReadIndex ?st1 < length (LowerBounds ?st1)"
      and c2: "Bound (LowerBounds ?st1 ! LowerReadIndex ?st1) = ob"
      by simp_all
    from "1.IH" [OF refl c wf1 c1 c2]
    have ih: "WfCounts (OverlappingSections (OpenStarting ob ?st1)) (OverlappingRefCounts (OpenStarting ob ?st1))"
      "RefCounted (OverlappingSections (OpenStarting ob ?st1)) (OverlappingRefCounts (OpenStarting ob ?st1)) +
           image_mset BoundEvalData (mset (take (Suc ?i) ?L)) =
         add_mset ?e (RefCounted (OverlappingSections st) (OverlappingRefCounts st)) +
           image_mset BoundEvalData (mset (take (LowerReadIndex (OpenStarting ob ?st1)) ?L))"
      "Suc ?i < LowerReadIndex (OpenStarting ob ?st1)"
      "LowerReadIndex (OpenStarting ob ?st1) \<le> length ?L"
      "\<forall>m. Suc ?i \<le> m \<and> m < LowerReadIndex (OpenStarting ob ?st1) \<longrightarrow> Bound (?L ! m) = ob"
      "LowerReadIndex (OpenStarting ob ?st1) < length ?L \<longrightarrow>
         Bound (?L ! LowerReadIndex (OpenStarting ob ?st1)) \<noteq> ob"
      by (simp_all add: rc0)
    have run: "\<forall>m. ?i \<le> m \<and> m < LowerReadIndex (OpenStarting ob ?st1) \<longrightarrow> Bound (?L ! m) = ob"
    proof (intro allI impI)
      fix m assume m: "?i \<le> m \<and> m < LowerReadIndex (OpenStarting ob ?st1)"
      show "Bound (?L ! m) = ob"
      proof (cases "m = ?i")
        case True
        with "1.prems"(3) show ?thesis by simp
      next
        case False
        with m ih(5) show ?thesis by simp
      qed
    qed
    from ih(2) have "RefCounted (OverlappingSections (OpenStarting ob ?st1)) (OverlappingRefCounts (OpenStarting ob ?st1)) +
           image_mset BoundEvalData (mset (take ?i ?L)) =
         RefCounted (OverlappingSections st) (OverlappingRefCounts st) +
           image_mset BoundEvalData (mset (take (LowerReadIndex (OpenStarting ob ?st1)) ?L))"
      by (simp add: tk)
    with ih run show ?thesis
      unfolding step by simp
  qed
qed

subsection \<open>The steps of the sweep keep the invariant\<close>

lemma nth_in_drop: "n < length xs \<Longrightarrow> xs ! n \<in> set (drop n xs)"
  by (metis Cons_nth_drop_Suc list.set_intros(1))

lemma in_take_nth: "y \<in> set (take k xs) \<Longrightarrow> \<exists>m. m < k \<and> m < length xs \<and> y = xs ! m"
  by (auto simp add: in_set_conv_nth)

lemma in_take_split:
  assumes "y \<in> set (take k xs)" and "j \<le> k"
  shows "y \<in> set (take j xs) \<or> (\<exists>m. j \<le> m \<and> m < k \<and> m < length xs \<and> y = xs ! m)"
proof -
  from in_take_nth [OF assms(1)] obtain m where m: "m < k" "m < length xs" "y = xs ! m" by blast
  show ?thesis
  proof (cases "m < j")
    case True
    with m have "y \<in> set (take j xs)" by (auto simp add: in_set_conv_nth)
    then show ?thesis ..
  next
    case False
    with m show ?thesis by (intro disjI2 exI [of _ m]) simp
  qed
qed

lemma SplitI:
  assumes "i \<le> length L" and "j \<le> length U"
    and "\<And>x. x \<in> set (take i L) \<Longrightarrow> lkey x \<le> pos"
    and "\<And>x. x \<in> set (drop i L) \<Longrightarrow> pos \<le> lkey x"
    and "\<And>y. y \<in> set (take j U) \<Longrightarrow> ukey y \<le> pos"
    and "\<And>y. y \<in> set (drop j U) \<Longrightarrow> pos < ukey y"
    and "\<And>x. 0 < i \<Longrightarrow> x \<in> set (drop i L) \<Longrightarrow> NegInf < lkey x"
  shows "Split L U i j pos"
  using assms unfolding Split_def by blast

lemma Finals_snoc:
  assumes "Finals L U fin pos" and "SegFinal L U s" and "slo s = pos" and "shi s = b"
  shows "Finals L U (fin @ [s]) b"
proof -
  from assms(2,3,4) have pb: "pos < b" by (simp add: SegFinal_def)
  have "Covered L U (fin @ [s]) b"
    unfolding Covered_def
  proof (intro allI impI)
    fix c assume c: "c < b"
    show "(\<exists>t \<in> set (fin @ [s]). slo t \<le> c \<and> c < shi t) \<or> ActiveAt L U c = {#}"
    proof (cases "c < pos")
      case True
      with assms(1) show ?thesis by (auto simp add: Finals_def Covered_def)
    next
      case False
      with c assms(3,4) show ?thesis by auto
    qed
  qed
  moreover have "sorted_wrt (\<lambda>s t. shi s \<le> slo t) (fin @ [s])"
    using assms(1,3) by (auto simp add: Finals_def sorted_wrt_append)
  moreover have "\<forall>t \<in> set (fin @ [s]). SegFinal L U t \<and> shi t \<le> b"
    using assms pb by (auto simp add: Finals_def)
  ultimately show ?thesis by (simp add: Finals_def)
qed

lemma Finals_advance:
  assumes "Finals L U fin pos" and "pos \<le> pos'"
    and "\<And>c. pos \<le> c \<Longrightarrow> c < pos' \<Longrightarrow> ActiveAt L U c = {#}"
  shows "Finals L U fin pos'"
proof -
  have "Covered L U fin pos'"
    unfolding Covered_def
  proof (intro allI impI)
    fix c assume c: "c < pos'"
    show "(\<exists>t \<in> set fin. slo t \<le> c \<and> c < shi t) \<or> ActiveAt L U c = {#}"
    proof (cases "c < pos")
      case True
      with assms(1) show ?thesis by (auto simp add: Finals_def Covered_def)
    next
      case False
      with c assms(3) [of c] show ?thesis by simp
    qed
  qed
  with assms(1,2) show ?thesis by (auto simp add: Finals_def)
qed

lemma bHasOpeningRange_cut:
  "bHasOpeningRange st \<longleftrightarrow>
     LowerReadIndex st < length (LowerBounds st) \<and>
     lkey (LowerBounds st ! LowerReadIndex st) < ukey (UpperBounds st ! UpperReadIndex st)"
  by (auto simp add: bHasOpeningRange_def IsEmpty_iff lkey_def ukey_def)

lemma Head_CloseAtUpper:
  assumes head: "Head st"
    and j: "UpperReadIndex st < length (UpperBounds st)"
    and no: "\<not> bHasOpeningRange st"
  shows "Head (CloseAtUpper st)"
proof -
  let ?L = "LowerBounds st" and ?U = "UpperBounds st"
  let ?i = "LowerReadIndex st" and ?j = "UpperReadIndex st"
  let ?os = "OverlappingSections st" and ?rc = "OverlappingRefCounts st"
  let ?M = "image_mset BoundEvalData (mset (take ?i ?L))"
  from head obtain pos where core: "Core st pos"
    and segs: "if ?os = [] then Finals ?L ?U (CompiledSegments st) pos
         else (\<exists>fin lo. CompiledSegments st = fin @ [\<lparr>Range' = TRange lo Open, Impls = ?os\<rparr>] \<and>
                         lcut lo = pos \<and> Finals ?L ?U fin pos)"
    unfolding Head_def by blast
  from core have bal: "Balanced ?L ?U" and cnt: "Counted ?L ?U ?i ?j ?os ?rc"
    and split: "Split ?L ?U ?i ?j pos"
    by (simp_all add: Core_def)
  from bal have sl: "sorted (map lkey ?L)" and su: "sorted (map ukey ?U)"
    by (simp_all add: Balanced_def)
  from cnt have wf: "WfCounts ?os ?rc"
    and rc: "RefCounted ?os ?rc = ?M - image_mset BoundEvalData (mset (take ?j ?U))"
    by (simp_all add: Counted_def)
  from split have i: "?i \<le> length ?L"
    and o1: "\<And>x. x \<in> set (take ?i ?L) \<Longrightarrow> lkey x \<le> pos"
    and o2: "\<And>x. x \<in> set (drop ?i ?L) \<Longrightarrow> pos \<le> lkey x"
    and c1: "\<And>y. y \<in> set (take ?j ?U) \<Longrightarrow> ukey y \<le> pos"
    and c2: "\<And>y. y \<in> set (drop ?j ?U) \<Longrightarrow> pos < ukey y"
    and o3: "0 < ?i \<longrightarrow> (\<forall>x \<in> set (drop ?i ?L). NegInf < lkey x)"
    by (simp_all add: Split_def)
  define cb where "cb = Bound (?U ! ?j)"
  define b where "b = ucut cb"
  have bkey: "ukey (?U ! ?j) = b" by (simp add: b_def cb_def ukey_def)
  have ne: "?os \<noteq> []"
  proof
    assume "?os = []"
    from Core_next_opening [OF core this j] no show False
      by (simp add: bHasOpeningRange_cut)
  qed
  with segs obtain fin lo where comp: "CompiledSegments st = fin @ [\<lparr>Range' = TRange lo Open, Impls = ?os\<rparr>]"
    and lo: "lcut lo = pos" and fin: "Finals ?L ?U fin pos"
    by auto
  have pb: "pos < b"
    using c2 [OF nth_in_drop [OF j]] by (simp add: bkey)
  have unopened: "b \<le> lkey x" if "x \<in> set (drop ?i ?L)" for x
  proof (cases "?i < length ?L")
    case True
    with no have "b \<le> lkey (?L ! ?i)"
      by (simp add: bHasOpeningRange_cut bkey not_less)
    also have "\<dots> \<le> lkey x" using sl True that by (rule sorted_from)
    finally show ?thesis .
  next
    case False
    with that show ?thesis by simp
  qed
  have unclosed: "b \<le> ukey y" if "y \<in> set (drop ?j ?U)" for y
    using sorted_from [OF su j that] by (simp add: bkey)
  have active: "ActiveAt ?L ?U c = RefCounted ?os ?rc" if "pos \<le> c" "c < b" for c
    unfolding rc
  proof (rule ActiveAt_window)
    fix x assume "x \<in> set (take ?i ?L)"
    from o1 [OF this] that(1) show "lkey x \<le> c" by simp
  next
    fix x assume "x \<in> set (drop ?i ?L)"
    from unopened [OF this] that(2) show "c < lkey x" by simp
  next
    fix y assume "y \<in> set (take ?j ?U)"
    from c1 [OF this] that(1) show "ukey y \<le> c" by simp
  next
    fix y assume "y \<in> set (drop ?j ?U)"
    from unclosed [OF this] that(2) show "c < ukey y" by simp
  qed
  define s where "s = \<lparr>Range' = TRange lo cb, Impls = ?os\<rparr>"
  have s: "slo s = pos" "shi s = b" "Impls s = ?os"
    by (simp_all add: s_def slo_def shi_def lo b_def)
  have "SegFinal ?L ?U s"
    unfolding SegFinal_def using pb active set_mset_RefCounted [OF wf] by (simp add: s)
  with fin s have fin2: "Finals ?L ?U (fin @ [s]) b"
    by (intro Finals_snoc [of _ _ _ pos]) simp_all
  define st1 where "st1 = st\<lparr>CompiledSegments := fin @ [s]\<rparr>"
  define st2 where "st2 = CloseFinished cb st1"
  have st1: "st\<lparr>CompiledSegments :=
               SetLastRange (TRange (GetLowerBound (Range' (last (CompiledSegments st)))) (Bound (?U ! ?j)))
                 (CompiledSegments st)\<rparr> = st1"
    by (simp add: st1_def SetLastRange_def comp s_def cb_def)
  have h: "image_mset BoundEvalData (mset (take k ?U)) \<subseteq># ?M"
    if "?j \<le> k" "k \<le> length ?U" "\<forall>m. ?j \<le> m \<and> m < k \<longrightarrow> Bound (?U ! m) = cb" for k
  proof (rule finished_started [OF bal, of ?i b])
    fix x assume "x \<in> set (drop ?i ?L)"
    then show "b \<le> lkey x" by (rule unopened)
  next
    fix y assume "y \<in> set (take k ?U)"
    from in_take_split [OF this that(1)] show "ukey y \<le> b"
    proof (elim disjE exE conjE)
      assume "y \<in> set (take ?j ?U)"
      from c1 [OF this] pb show ?thesis by simp
    next
      fix m assume "?j \<le> m" "m < k" "y = ?U ! m"
      with that(3) show ?thesis by (simp add: ukey_def b_def)
    qed
  qed
  have cf: "WfCounts (OverlappingSections st2) (OverlappingRefCounts st2) \<and>
         RefCounted (OverlappingSections st2) (OverlappingRefCounts st2) =
           ?M - image_mset BoundEvalData (mset (take (UpperReadIndex st2) ?U)) \<and>
         ?j \<le> UpperReadIndex st2 \<and> UpperReadIndex st2 \<le> length ?U \<and>
         (\<forall>m. ?j \<le> m \<and> m < UpperReadIndex st2 \<longrightarrow> Bound (?U ! m) = cb) \<and>
         (UpperReadIndex st2 < length ?U \<longrightarrow> Bound (?U ! UpperReadIndex st2) \<noteq> cb)"
    using CloseFinished_counts [of st1 ?M cb] wf rc j h
    by (simp add: st1_def st2_def)
  let ?j' = "UpperReadIndex st2"
  let ?os' = "OverlappingSections st2" and ?rc' = "OverlappingRefCounts st2"
  from cf have wf2: "WfCounts ?os' ?rc'"
    and rc2: "RefCounted ?os' ?rc' = ?M - image_mset BoundEvalData (mset (take ?j' ?U))"
    and jj: "?j \<le> ?j'" and j'le: "?j' \<le> length ?U"
    and run: "\<forall>m. ?j \<le> m \<and> m < ?j' \<longrightarrow> Bound (?U ! m) = cb"
    and stop: "?j' < length ?U \<longrightarrow> Bound (?U ! ?j') \<noteq> cb"
    by simp_all
  have fields2: "LowerBounds st2 = ?L" "UpperBounds st2 = ?U" "LowerReadIndex st2 = ?i"
    "CompiledSegments st2 = fin @ [s]"
    by (simp_all add: st2_def st1_def)
  have closed': "ukey y \<le> b" if "y \<in> set (take ?j' ?U)" for y
    using in_take_split [OF that jj]
  proof (elim disjE exE conjE)
    assume "y \<in> set (take ?j ?U)"
    from c1 [OF this] pb show ?thesis by simp
  next
    fix m assume "?j \<le> m" "m < ?j'" "y = ?U ! m"
    with run show ?thesis by (simp add: ukey_def b_def)
  qed
  have unclosed': "b < ukey y" if "y \<in> set (drop ?j' ?U)" for y
  proof -
    from that have lt: "?j' < length ?U" by (cases "?j' < length ?U") simp_all
    have "?U ! ?j' \<in> set (drop ?j ?U)"
      using lt jj by (auto simp add: in_set_conv_nth intro!: exI [of _ "?j' - ?j"])
    from unclosed [OF this] stop lt have "b < ukey (?U ! ?j')"
      by (auto simp add: ukey_def b_def less_le)
    also have "\<dots> \<le> ukey y" using su lt that by (rule sorted_from)
    finally show ?thesis .
  qed
  have split2: "Split ?L ?U ?i ?j' b"
  proof (rule SplitI)
    show "?i \<le> length ?L" by fact
    show "?j' \<le> length ?U" by fact
    show "lkey x \<le> b" if "x \<in> set (take ?i ?L)" for x
      using o1 [OF that] pb by simp
    show "b \<le> lkey x" if "x \<in> set (drop ?i ?L)" for x
      using that by (rule unopened)
    show "ukey y \<le> b" if "y \<in> set (take ?j' ?U)" for y
      using that by (rule closed')
    show "b < ukey y" if "y \<in> set (drop ?j' ?U)" for y
      using that by (rule unclosed')
    show "NegInf < lkey x" if "0 < ?i" "x \<in> set (drop ?i ?L)" for x
      using o3 that by simp
  qed
  have "image_mset BoundEvalData (mset (take ?j' ?U)) \<subseteq># ?M"
    using jj j'le run by (intro h) simp_all
  with wf2 rc2 have cnt2: "Counted ?L ?U ?i ?j' ?os' ?rc'"
    by (simp add: Counted_def)
  from bal cnt2 split2 have core2: "Core st2 b"
    by (simp add: Core_def fields2)
  have upper: "CloseAtUpper st =
      (if ?os' \<noteq> []
       then st2\<lparr>CompiledSegments := (fin @ [s]) @
              [\<lparr>Range' = TRange (FlipInclusion cb) Open, Impls = ?os'\<rparr>]\<rparr>
       else st2)"
    by (simp add: CloseAtUpper_def Let_def st1 st1 [unfolded cb_def [symmetric]] cb_def [symmetric]
        st2_def [symmetric] fields2)
  show ?thesis
  proof (cases "?os' = []")
    case True
    with upper core2 fin2 show ?thesis
      unfolding Head_def by (auto simp add: fields2)
  next
    case False
    have "cb \<noteq> Open"
    proof
      assume "cb = Open"
      then have inf: "b = PosInf" by (simp add: b_def)
      have "drop ?i ?L = []"
      proof (rule ccontr)
        assume "drop ?i ?L \<noteq> []"
        then obtain x where "x \<in> set (drop ?i ?L)" by (cases "drop ?i ?L") auto
        from unopened [OF this] inf show False
          by (cases "Bound x") (simp_all add: lkey_def)
      qed
      moreover have "drop ?j' ?U = []"
      proof (rule ccontr)
        assume "drop ?j' ?U \<noteq> []"
        then obtain y where "y \<in> set (drop ?j' ?U)" by (cases "drop ?j' ?U") auto
        from unclosed' [OF this] inf show False by simp
      qed
      ultimately have "RefCounted ?os' ?rc' = {#}"
        using rc2 bal by (simp add: Balanced_def)
      with wf2 False show False by (simp add: RefCounted_empty_iff)
    qed
    then have "lcut (FlipInclusion cb) = b"
      by (simp add: b_def lcut_Flip IsOpen_iff)
    with False upper core2 fin2 show ?thesis
      unfolding Head_def
      by (intro exI [of _ b]) (auto simp add: Core_def fields2)
  qed
qed

lemma Core_advance:
  assumes core: "Core st pos"
    and i: "LowerReadIndex st < length (LowerBounds st)"
    and nxt: "UpperReadIndex st < length (UpperBounds st) \<Longrightarrow>
              lkey (LowerBounds st ! LowerReadIndex st) < ukey (UpperBounds st ! UpperReadIndex st)"
  shows "Core st (lkey (LowerBounds st ! LowerReadIndex st))"
proof -
  let ?L = "LowerBounds st" and ?U = "UpperBounds st"
  let ?i = "LowerReadIndex st" and ?j = "UpperReadIndex st"
  let ?a = "lkey (?L ! ?i)"
  from core have bal: "Balanced ?L ?U" and split: "Split ?L ?U ?i ?j pos"
    by (simp_all add: Core_def)
  from bal have sl: "sorted (map lkey ?L)" and su: "sorted (map ukey ?U)"
    by (simp_all add: Balanced_def)
  from split have j: "?j \<le> length ?U"
    and o1: "\<And>x. x \<in> set (take ?i ?L) \<Longrightarrow> lkey x \<le> pos"
    and o2: "\<And>x. x \<in> set (drop ?i ?L) \<Longrightarrow> pos \<le> lkey x"
    and c1: "\<And>y. y \<in> set (take ?j ?U) \<Longrightarrow> ukey y \<le> pos"
    and o3: "0 < ?i \<longrightarrow> (\<forall>x \<in> set (drop ?i ?L). NegInf < lkey x)"
    by (simp_all add: Split_def)
  have pa: "pos \<le> ?a" using o2 [OF nth_in_drop [OF i]] .
  have "Split ?L ?U ?i ?j ?a"
  proof (rule SplitI)
    show "?i \<le> length ?L" using i by simp
    show "?j \<le> length ?U" by fact
    show "lkey x \<le> ?a" if "x \<in> set (take ?i ?L)" for x
      using o1 [OF that] pa by simp
    show "?a \<le> lkey x" if "x \<in> set (drop ?i ?L)" for x
      using sl i that by (rule sorted_from)
    show "ukey y \<le> ?a" if "y \<in> set (take ?j ?U)" for y
      using c1 [OF that] pa by simp
    show "?a < ukey y" if "y \<in> set (drop ?j ?U)" for y
    proof -
      from that have lt: "?j < length ?U" by (cases "?j < length ?U") simp_all
      from nxt [OF lt] have "?a < ukey (?U ! ?j)" .
      also have "\<dots> \<le> ukey y" using su lt that by (rule sorted_from)
      finally show ?thesis .
    qed
    show "NegInf < lkey x" if "0 < ?i" "x \<in> set (drop ?i ?L)" for x
      using o3 that by simp
  qed
  with core show ?thesis by (simp add: Core_def)
qed

text \<open>Between the position and the next lower bound, when that comes before the next
  upper bound, the active evaluation data are the overlapping ones.\<close>

lemma Core_between:
  assumes core: "Core st pos"
    and core': "Core st (lkey (LowerBounds st ! LowerReadIndex st))"
    and i: "LowerReadIndex st < length (LowerBounds st)"
    and c: "pos \<le> c" "c < lkey (LowerBounds st ! LowerReadIndex st)"
  shows "ActiveAt (LowerBounds st) (UpperBounds st) c =
         RefCounted (OverlappingSections st) (OverlappingRefCounts st)"
proof -
  let ?L = "LowerBounds st" and ?U = "UpperBounds st"
  let ?i = "LowerReadIndex st" and ?j = "UpperReadIndex st"
  from core have split: "Split ?L ?U ?i ?j pos"
    and cnt: "Counted ?L ?U ?i ?j (OverlappingSections st) (OverlappingRefCounts st)"
    by (simp_all add: Core_def)
  from core' have split': "Split ?L ?U ?i ?j (lkey (?L ! ?i))"
    by (simp add: Core_def)
  from split have o1: "\<And>x. x \<in> set (take ?i ?L) \<Longrightarrow> lkey x \<le> pos"
    and c1: "\<And>y. y \<in> set (take ?j ?U) \<Longrightarrow> ukey y \<le> pos"
    by (simp_all add: Split_def)
  from split' have o2: "\<And>x. x \<in> set (drop ?i ?L) \<Longrightarrow> lkey (?L ! ?i) \<le> lkey x"
    and c2: "\<And>y. y \<in> set (drop ?j ?U) \<Longrightarrow> lkey (?L ! ?i) < ukey y"
    by (simp_all add: Split_def)
  have "ActiveAt ?L ?U c =
        image_mset BoundEvalData (mset (take ?i ?L)) - image_mset BoundEvalData (mset (take ?j ?U))"
  proof (rule ActiveAt_window)
    fix x assume "x \<in> set (take ?i ?L)"
    from o1 [OF this] c(1) show "lkey x \<le> c" by (rule order_trans)
  next
    fix x assume "x \<in> set (drop ?i ?L)"
    from c(2) o2 [OF this] show "c < lkey x" by (rule less_le_trans)
  next
    fix y assume "y \<in> set (take ?j ?U)"
    from c1 [OF this] c(1) show "ukey y \<le> c" by (rule order_trans)
  next
    fix y assume "y \<in> set (drop ?j ?U)"
    from c(2) c2 [OF this] show "c < ukey y" by (rule less_trans)
  qed
  with cnt show ?thesis by (simp add: Counted_def)
qed

lemma Ready_of_empty:
  assumes head: "Head st" and empty: "OverlappingSections st = []"
    and i: "LowerReadIndex st < length (LowerBounds st)"
  shows "Ready st"
proof -
  let ?L = "LowerBounds st" and ?U = "UpperBounds st"
  let ?a = "lkey (?L ! LowerReadIndex st)"
  from head empty obtain pos where core: "Core st pos"
    and fin: "Finals ?L ?U (CompiledSegments st) pos"
    unfolding Head_def by auto
  have core': "Core st ?a"
  proof (rule Core_advance [OF core i])
    assume "UpperReadIndex st < length ?U"
    from Core_next_opening [OF core empty this]
    show "?a < ukey (?U ! UpperReadIndex st)" by simp
  qed
  from core have "pos \<le> ?a"
    using nth_in_drop [OF i] by (simp add: Core_def Split_def)
  moreover have "ActiveAt ?L ?U c = {#}" if "pos \<le> c" "c < ?a" for c
    using Core_between [OF core core' i that] empty by simp
  ultimately have "Finals ?L ?U (CompiledSegments st) ?a"
    using fin by (intro Finals_advance [of ?L ?U "CompiledSegments st" pos ?a]) simp_all
  with core' i show ?thesis by (simp add: Ready_def)
qed

lemma Core_segments [simp]: "Core (st\<lparr>CompiledSegments := segs\<rparr>) pos = Core st pos"
  by (simp add: Core_def)

lemma Head_CloseAtOpening:
  assumes head: "Head st"
    and "open": "bHasOpeningRange st"
  shows "Ready (CloseAtOpening st)"
proof (cases "OverlappingSections st = []")
  case True
  from "open" have "LowerReadIndex st < length (LowerBounds st)"
    by (simp add: bHasOpeningRange_cut)
  with head True have "Ready st"
    by (rule Ready_of_empty)
  with True show ?thesis by (simp add: CloseAtOpening_def)
next
  case False
  let ?L = "LowerBounds st" and ?U = "UpperBounds st"
  let ?i = "LowerReadIndex st" and ?j = "UpperReadIndex st"
  let ?os = "OverlappingSections st" and ?rc = "OverlappingRefCounts st"
  let ?a = "lkey (?L ! ?i)"
  from "open" have i: "?i < length ?L" and nxt: "?a < ukey (?U ! ?j)"
    by (simp_all add: bHasOpeningRange_cut)
  from head False obtain pos fin lo where core: "Core st pos"
    and comp: "CompiledSegments st = fin @ [\<lparr>Range' = TRange lo Open, Impls = ?os\<rparr>]"
    and lo: "lcut lo = pos" and fin: "Finals ?L ?U fin pos"
    unfolding Head_def by auto
  have core': "Core st ?a"
    using core i nxt by (rule Core_advance)
  from core have cnt: "Counted ?L ?U ?i ?j ?os ?rc" and split: "Split ?L ?U ?i ?j pos"
    by (simp_all add: Core_def)
  from cnt have wf: "WfCounts ?os ?rc" by (simp add: Counted_def)
  from split have pa: "pos \<le> ?a"
    using nth_in_drop [OF i] by (simp add: Split_def)
  have "0 < ?i"
  proof (rule ccontr)
    assume "\<not> 0 < ?i"
    with cnt have "RefCounted ?os ?rc = {#}" by (simp add: Counted_def)
    with wf False show False by (simp add: RefCounted_empty_iff)
  qed
  with split have "NegInf < ?a"
    using nth_in_drop [OF i] by (simp add: Split_def)
  then have "Bound (?L ! ?i) \<noteq> Open"
    by (auto simp add: lkey_def)
  then have flip: "ucut (FlipInclusion (Bound (?L ! ?i))) = ?a"
    by (simp add: ucut_Flip IsOpen_iff lkey_def)
  define s where "s = \<lparr>Range' = TRange lo (FlipInclusion (Bound (?L ! ?i))), Impls = ?os\<rparr>"
  have s: "slo s = pos" "shi s = ?a" "Impls s = ?os"
    by (simp_all add: s_def slo_def shi_def lo flip)
  have empty: "IsEmpty (TRange lo (FlipInclusion (Bound (?L ! ?i)))) \<longleftrightarrow> ?a \<le> pos"
    by (simp add: IsEmpty_iff flip lo)
  have fields: "LowerBounds (CloseAtOpening st) = ?L" "LowerReadIndex (CloseAtOpening st) = ?i"
    "UpperBounds (CloseAtOpening st) = ?U"
    by simp_all
  show ?thesis
  proof (cases "?a \<le> pos")
    case True
    with pa have "?a = pos" by simp
    moreover have "CloseAtOpening st = st\<lparr>CompiledSegments := fin\<rparr>"
      using False True empty by (simp add: CloseAtOpening_def Let_def comp)
    ultimately show ?thesis
      using core' fin i by (simp add: Ready_def)
  next
    case nonempty: False
    then have "pos < ?a" by simp
    moreover have "set ?os = set_mset (ActiveAt ?L ?U c)" if "pos \<le> c" "c < ?a" for c
      using Core_between [OF core core' i that] set_mset_RefCounted [OF wf] by simp
    ultimately have "SegFinal ?L ?U s"
      by (simp add: SegFinal_def s)
    with fin s have "Finals ?L ?U (fin @ [s]) ?a"
      by (intro Finals_snoc [of _ _ _ pos]) simp_all
    moreover have "CloseAtOpening st = st\<lparr>CompiledSegments := fin @ [s]\<rparr>"
      using False nonempty empty by (simp add: CloseAtOpening_def Let_def comp SetLastRange_def s_def)
    ultimately show ?thesis
      using core' i by (simp add: Ready_def)
  qed
qed

lemma mset_take_mono: "i \<le> k \<Longrightarrow> mset (take i xs) \<subseteq># mset (take k xs)"
proof -
  assume "i \<le> k"
  then have "take i xs = take i (take k xs)" by (simp add: min_def)
  then have "mset (take k xs) = mset (take i xs) + mset (drop i (take k xs))"
    using mset_take_drop [of "take k xs" i] by simp
  then show ?thesis by simp
qed

lemma diff_add_swap:
  fixes C M M' :: "'b multiset"
  assumes "C \<subseteq># M" and "M \<subseteq># M'"
  shows "(M - C) + M' = (M' - C) + M"
proof (rule multiset_eqI)
  fix x
  from assms have "count C x \<le> count M x" and "count M x \<le> count M' x"
    by (simp_all add: mset_subset_eq_count)
  then show "count ((M - C) + M') x = count ((M' - C) + M) x"
    by simp
qed

lemma set_drop_mono: "i \<le> k \<Longrightarrow> set (drop k xs) \<subseteq> set (drop i xs)"
  by (rule set_drop_subset_set_drop)

lemma Ready_OpenAtLower:
  assumes ready: "Ready st"
  shows "Head (OpenAtLower st)"
proof -
  let ?L = "LowerBounds st" and ?U = "UpperBounds st"
  let ?i = "LowerReadIndex st" and ?j = "UpperReadIndex st"
  let ?os = "OverlappingSections st" and ?rc = "OverlappingRefCounts st"
  let ?a = "lkey (?L ! ?i)"
  define ob where "ob = Bound (?L ! ?i)"
  define st1 where "st1 = OpenStarting ob st"
  let ?i' = "LowerReadIndex st1"
  let ?os' = "OverlappingSections st1" and ?rc' = "OverlappingRefCounts st1"
  let ?M = "image_mset BoundEvalData (mset (take ?i ?L))"
  let ?M' = "image_mset BoundEvalData (mset (take ?i' ?L))"
  let ?C = "image_mset BoundEvalData (mset (take ?j ?U))"
  from ready have i: "?i < length ?L" and core: "Core st ?a"
    and fin: "Finals ?L ?U (CompiledSegments st) ?a"
    by (simp_all add: Ready_def)
  from core have bal: "Balanced ?L ?U" and cnt: "Counted ?L ?U ?i ?j ?os ?rc"
    and split: "Split ?L ?U ?i ?j ?a"
    by (simp_all add: Core_def)
  from bal have sl: "sorted (map lkey ?L)" by (simp add: Balanced_def)
  from cnt have wf: "WfCounts ?os ?rc" and sub: "?C \<subseteq># ?M" and rc: "RefCounted ?os ?rc = ?M - ?C"
    by (simp_all add: Counted_def)
  from split have j: "?j \<le> length ?U"
    and o1: "\<And>x. x \<in> set (take ?i ?L) \<Longrightarrow> lkey x \<le> ?a"
    and o2: "\<And>x. x \<in> set (drop ?i ?L) \<Longrightarrow> ?a \<le> lkey x"
    and c1: "\<And>y. y \<in> set (take ?j ?U) \<Longrightarrow> ukey y \<le> ?a"
    and c2: "\<And>y. y \<in> set (drop ?j ?U) \<Longrightarrow> ?a < ukey y"
    by (simp_all add: Split_def)
  have os: "WfCounts ?os' ?rc' \<and>
         RefCounted ?os' ?rc' + ?M = RefCounted ?os ?rc + ?M' \<and>
         ?i < ?i' \<and> ?i' \<le> length ?L \<and>
         (\<forall>m. ?i \<le> m \<and> m < ?i' \<longrightarrow> Bound (?L ! m) = ob) \<and>
         (?i' < length ?L \<longrightarrow> Bound (?L ! ?i') \<noteq> ob)"
    unfolding st1_def
  proof (rule OpenStarting_counts)
    show "WfCounts ?os ?rc" by fact
    show "?i < length ?L" by fact
    show "Bound (?L ! ?i) = ob" by (simp only: ob_def)
  qed
  then have wf1: "WfCounts ?os' ?rc'" and rc1: "RefCounted ?os' ?rc' + ?M = RefCounted ?os ?rc + ?M'"
    and ii: "?i < ?i'" and i'le: "?i' \<le> length ?L"
    and run: "\<forall>m. ?i \<le> m \<and> m < ?i' \<longrightarrow> Bound (?L ! m) = ob"
    and stop: "?i' < length ?L \<longrightarrow> Bound (?L ! ?i') \<noteq> ob"
    by simp_all
  have fields: "LowerBounds st1 = ?L" "UpperBounds st1 = ?U" "UpperReadIndex st1 = ?j"
    "CompiledSegments st1 = CompiledSegments st"
    by (simp_all add: st1_def)
  have MM: "?M \<subseteq># ?M'"
    using ii by (intro image_mset_subseteq_mono mset_take_mono) simp
  have "RefCounted ?os ?rc + ?M' = (?M - ?C) + ?M'" by (simp only: rc)
  also have "\<dots> = (?M' - ?C) + ?M"
    using sub MM by (rule diff_add_swap)
  finally have "RefCounted ?os ?rc + ?M' = (?M' - ?C) + ?M" .
  with rc1 have "RefCounted ?os' ?rc' + ?M = (?M' - ?C) + ?M" by (rule trans)
  then have rc': "RefCounted ?os' ?rc' = ?M' - ?C" by (rule add_right_imp_eq)
  have "?C \<subseteq># ?M'" using sub MM by (rule subset_mset.order_trans)
  with wf1 rc' have cnt': "Counted ?L ?U ?i' ?j ?os' ?rc'"
    by (simp add: Counted_def)
  have aob: "lcut ob = ?a" by (simp only: lkey_def ob_def)
  have opened': "lkey x \<le> ?a" if "x \<in> set (take ?i' ?L)" for x
    using in_take_split [OF that less_imp_le [OF ii]]
  proof (elim disjE exE conjE)
    assume "x \<in> set (take ?i ?L)"
    then show ?thesis by (rule o1)
  next
    fix m assume "?i \<le> m" "m < ?i'" "x = ?L ! m"
    with run have "Bound x = ob" by simp
    then have "lkey x = lcut ob" by (simp only: lkey_def)
    with aob show ?thesis by simp
  qed
  have unopened': "?a < lkey x" if "x \<in> set (drop ?i' ?L)" for x
  proof -
    from that have lt: "?i' < length ?L" by (cases "?i' < length ?L") simp_all
    have "?L ! ?i' \<in> set (drop ?i ?L)"
      using lt ii by (auto simp add: in_set_conv_nth intro!: exI [of _ "?i' - ?i"])
    then have "?a \<le> lkey (?L ! ?i')" by (rule o2)
    moreover from stop lt have "lcut (Bound (?L ! ?i')) \<noteq> lcut ob"
      by (simp only: lcut_inj) simp
    then have "lkey (?L ! ?i') \<noteq> ?a" using aob by (simp add: lkey_def)
    ultimately have "?a < lkey (?L ! ?i')" by simp
    also have "\<dots> \<le> lkey x" using sl lt that by (rule sorted_from)
    finally show ?thesis .
  qed
  have split': "Split ?L ?U ?i' ?j ?a"
  proof (rule SplitI)
    show "?i' \<le> length ?L" by fact
    show "?j \<le> length ?U" by fact
    show "lkey x \<le> ?a" if "x \<in> set (take ?i' ?L)" for x
      using that by (rule opened')
    show "?a \<le> lkey x" if "x \<in> set (drop ?i' ?L)" for x
      using unopened' [OF that] by simp
    show "ukey y \<le> ?a" if "y \<in> set (take ?j ?U)" for y
      using that by (rule c1)
    show "?a < ukey y" if "y \<in> set (drop ?j ?U)" for y
      using that by (rule c2)
    show "NegInf < lkey x" if "0 < ?i'" "x \<in> set (drop ?i' ?L)" for x
    proof -
      have "NegInf \<le> ?a" by simp
      also have "?a < lkey x" using that(2) by (rule unopened')
      finally show ?thesis .
    qed
  qed
  from bal cnt' split' have core': "Core st1 ?a"
    by (simp add: Core_def fields)
  have "size (RefCounted ?os' ?rc' + ?M) = size (RefCounted ?os ?rc + ?M')"
    by (simp only: rc1)
  then have "size (RefCounted ?os' ?rc') + ?i = size (RefCounted ?os ?rc) + ?i'"
    using i i'le by (simp add: min_def)
  with ii have "0 < size (RefCounted ?os' ?rc')" by linarith
  then have "RefCounted ?os' ?rc' \<noteq> {#}" by auto
  with wf1 have ne: "?os' \<noteq> []" by (simp add: RefCounted_empty_iff)
  define st2 where
    "st2 = st1\<lparr>CompiledSegments := CompiledSegments st @ [\<lparr>Range' = TRange ob Open, Impls = ?os'\<rparr>]\<rparr>"
  have eq: "OpenAtLower st = st2"
    by (simp add: OpenAtLower_def Let_def ob_def [symmetric] st1_def [symmetric] fields st2_def)
  have lo: "lcut ob = ?a" by (rule aob)
  have f2: "LowerBounds st2 = ?L" "UpperBounds st2 = ?U" "OverlappingSections st2 = ?os'"
    "CompiledSegments st2 = CompiledSegments st @ [\<lparr>Range' = TRange ob Open, Impls = ?os'\<rparr>]"
    by (simp_all add: st2_def fields)
  have "Core st2 ?a" using core' by (simp add: st2_def)
  moreover have "\<exists>fin lo. CompiledSegments st2 = fin @ [\<lparr>Range' = TRange lo Open, Impls = OverlappingSections st2\<rparr>] \<and>
      lcut lo = ?a \<and> Finals (LowerBounds st2) (UpperBounds st2) fin ?a"
    using lo fin by (intro exI [of _ "CompiledSegments st"] exI [of _ ob]) (simp add: f2)
  ultimately have "Head st2"
    unfolding Head_def using ne by (intro exI [of _ ?a]) (simp add: f2)
  then show ?thesis by (simp add: eq)
qed

subsection \<open>The loops keep the invariant\<close>

lemma Head_all_finished:
  assumes head: "Head st" and j: "UpperReadIndex st = length (UpperBounds st)"
  shows "Done st"
proof -
  let ?L = "LowerBounds st" and ?U = "UpperBounds st"
  let ?i = "LowerReadIndex st"
  let ?M = "image_mset BoundEvalData (mset (take ?i ?L))"
  let ?A = "image_mset BoundEvalData (mset ?L)"
  from head obtain pos where core: "Core st pos"
    and segs: "if OverlappingSections st = [] then Finals ?L ?U (CompiledSegments st) pos
         else (\<exists>fin lo. CompiledSegments st = fin @ [\<lparr>Range' = TRange lo Open, Impls = OverlappingSections st\<rparr>] \<and>
                         lcut lo = pos \<and> Finals ?L ?U fin pos)"
    unfolding Head_def by blast
  from core have bal: "Balanced ?L ?U"
    and cnt: "Counted ?L ?U ?i (length ?U) (OverlappingSections st) (OverlappingRefCounts st)"
    and split: "Split ?L ?U ?i (length ?U) pos"
    by (simp_all add: Core_def j)
  from bal have all: "image_mset BoundEvalData (mset ?U) = ?A" by (simp add: Balanced_def)
  from cnt all have sub: "?A \<subseteq># ?M"
    and rc: "RefCounted (OverlappingSections st) (OverlappingRefCounts st) = ?M - ?A"
    and wf: "WfCounts (OverlappingSections st) (OverlappingRefCounts st)"
    by (simp_all add: Counted_def)
  from split have i: "?i \<le> length ?L" by (simp add: Split_def)
  from sub have "size ?A \<le> size ?M" by (rule size_mset_mono)
  with i have "?i = length ?L" by simp
  moreover from sub rc have "RefCounted (OverlappingSections st) (OverlappingRefCounts st) = {#}"
    by (simp add: Diff_eq_empty_iff_mset calculation)
  with wf have empty: "OverlappingSections st = []" by (simp add: RefCounted_empty_iff)
  moreover from segs empty have "Finals ?L ?U (CompiledSegments st) pos" by simp
  ultimately show ?thesis using core j unfolding Done_def by blast
qed

lemma Head_nothing_left:
  assumes head: "Head st" and empty: "OverlappingSections st = []"
    and i: "LowerReadIndex st = length (LowerBounds st)"
  shows "Done st"
proof -
  from head obtain pos where core: "Core st pos" unfolding Head_def by blast
  then have bal: "Balanced (LowerBounds st) (UpperBounds st)"
    and cnt: "Counted (LowerBounds st) (UpperBounds st) (LowerReadIndex st) (UpperReadIndex st)
                (OverlappingSections st) (OverlappingRefCounts st)"
    and split: "Split (LowerBounds st) (UpperBounds st) (LowerReadIndex st) (UpperReadIndex st) pos"
    by (simp_all add: Core_def)
  from split have "LowerReadIndex st \<le> length (LowerBounds st)"
    and "UpperReadIndex st \<le> length (UpperBounds st)"
    by (simp_all add: Split_def)
  with cnt empty have "LowerReadIndex st = UpperReadIndex st"
    using Counted_empty_indices [of "LowerBounds st" "UpperBounds st" "LowerReadIndex st"
        "UpperReadIndex st" "OverlappingRefCounts st"] by simp
  with i Balanced_length [OF bal] have "UpperReadIndex st = length (UpperBounds st)" by simp
  with head show ?thesis by (rule Head_all_finished)
qed

lemma CloseLoop_post:
  "Head st \<Longrightarrow> Ready (CloseLoop st) \<or> Done (CloseLoop st)"
proof (induction st rule: CloseLoop.induct)
  case (1 st)
  show ?case
  proof (cases "UpperReadIndex st < length (UpperBounds st)")
    case False
    from "1.prems" have "UpperReadIndex st \<le> length (UpperBounds st)"
      by (auto simp add: Head_def Core_def Split_def)
    with False have "UpperReadIndex st = length (UpperBounds st)" by simp
    with "1.prems" have "Done st" by (rule Head_all_finished)
    with False show ?thesis by (simp add: CloseLoop_stop)
  next
    case True
    show ?thesis
    proof (cases "bHasOpeningRange st")
      case has: True
      with "1.prems" have "Ready (CloseAtOpening st)" by (rule Head_CloseAtOpening)
      with True has show ?thesis by (simp add: CloseLoop_opening)
    next
      case False
      with "1.prems" True have "Head (CloseAtUpper st)" by (intro Head_CloseAtUpper)
      with "1.IH" [OF True False] have "Ready (CloseLoop (CloseAtUpper st)) \<or> Done (CloseLoop (CloseAtUpper st))" .
      with True False show ?thesis by (simp add: CloseLoop_step)
    qed
  qed
qed

lemma CloseCompletedSegments_post:
  assumes "Head st"
  shows "Ready (CloseCompletedSegments st) \<or> Done (CloseCompletedSegments st)"
proof (cases "CompiledSegments st = []")
  case False
  with CloseLoop_post [OF assms] show ?thesis by (simp add: CloseCompletedSegments_def)
next
  case True
  with assms have empty: "OverlappingSections st = []"
    unfolding Head_def by (cases "OverlappingSections st = []") auto
  from assms have "LowerReadIndex st \<le> length (LowerBounds st)"
    by (auto simp add: Head_def Core_def Split_def)
  then consider "LowerReadIndex st < length (LowerBounds st)" | "LowerReadIndex st = length (LowerBounds st)"
    by linarith
  then have "Ready st \<or> Done st"
  proof cases
    case 1
    with assms empty have "Ready st" by (rule Ready_of_empty)
    then show ?thesis ..
  next
    case 2
    with assms empty have "Done st" by (rule Head_nothing_left)
    then show ?thesis ..
  qed
  with True show ?thesis by (simp add: CloseCompletedSegments_def)
qed

lemma CompileLoop_post:
  "Head st \<Longrightarrow> Head (CompileLoop st) \<and>
     LowerReadIndex (CompileLoop st) = length (LowerBounds (CompileLoop st))"
proof (induction st rule: CompileLoop.induct)
  case (1 st)
  show ?case
  proof (cases "LowerReadIndex st < length (LowerBounds st)")
    case False
    from "1.prems" have "LowerReadIndex st \<le> length (LowerBounds st)"
      by (auto simp add: Head_def Core_def Split_def)
    with False "1.prems" show ?thesis by (simp add: CompileLoop_stop)
  next
    case True
    from CloseCompletedSegments_post [OF "1.prems"]
    have "Ready (CloseCompletedSegments st)"
    proof
      assume "Done (CloseCompletedSegments st)"
      with True show ?thesis by (simp add: Done_def)
    qed
    then have "Head (OpenAtLower (CloseCompletedSegments st))" by (rule Ready_OpenAtLower)
    from "1.IH" [OF True this] True show ?thesis by (simp add: CompileLoop_step)
  qed
qed

lemma Head_InitialBuffers: "Head (InitialBuffers Data)"
proof -
  let ?st = "InitialBuffers Data"
  have f: "OverlappingSections ?st = []" "OverlappingRefCounts ?st = []" "CompiledSegments ?st = []"
    "LowerReadIndex ?st = 0" "UpperReadIndex ?st = 0"
    by (simp_all add: InitialBuffers_def)
  have "Split (LowerBounds ?st) (UpperBounds ?st) 0 0 NegInf"
    by (rule SplitI) (simp_all add: ukey_def)
  moreover have "Counted (LowerBounds ?st) (UpperBounds ?st) 0 0 [] []"
    by (simp add: Counted_def WfCounts_def)
  moreover have "Finals (LowerBounds ?st) (UpperBounds ?st) [] NegInf"
    by (simp add: Finals_def Covered_def)
  ultimately show ?thesis
    unfolding Head_def Core_def using Balanced_InitialBuffers [of Data]
    by (intro exI [of _ NegInf]) (simp add: f)
qed

lemma Sweep_Done: "Done (Sweep Data)"
proof -
  let ?st = "CompileLoop (InitialBuffers Data)"
  from CompileLoop_post [OF Head_InitialBuffers, of Data]
  have head: "Head ?st" and all: "LowerReadIndex ?st = length (LowerBounds ?st)"
    by simp_all
  from CloseCompletedSegments_post [OF head]
  show ?thesis
  proof
    assume "Ready (CloseCompletedSegments ?st)"
    with all show ?thesis by (simp add: Ready_def)
  next
    assume "Done (CloseCompletedSegments ?st)"
    then show ?thesis by (simp add: Sweep_def)
  qed
qed

section \<open>The compiled segments\<close>

lemma point_cut: "Cut p False < c \<longleftrightarrow> Cut p True \<le> c"
  by (cases c) (auto simp add: le_less)

lemma ContainsElement_cut:
  "ContainsElement r p \<longleftrightarrow>
   lcut (GetLowerBound r) \<le> Cut p False \<and> Cut p False < ucut (GetUpperBound r)"
  by (simp add: ContainsElement_iff point_cut)

text \<open>The sections spanning a cut of the time line.\<close>

definition Spanning :: "'a::linorder FMovieSceneSectionData list \<Rightarrow> 'a cut \<Rightarrow> 'a FMovieSceneSectionData list" where
  "Spanning Data c =
     filter (\<lambda>t. lcut (GetLowerBound (Bounds t)) \<le> c \<and> c < ucut (GetUpperBound (Bounds t))) Data"

lemma ActiveAt_Spanning:
  "set_mset (ActiveAt (LowerBounds (InitialBuffers Data)) (UpperBounds (InitialBuffers Data)) c) =
   set (map EvalData (Spanning Data c))"
proof -
  have "{t \<in> set (NonEmptySections Data).
           lcut (GetLowerBound (Bounds t)) \<le> c \<and> c < ucut (GetUpperBound (Bounds t))} =
        {t \<in> set Data. lcut (GetLowerBound (Bounds t)) \<le> c \<and> c < ucut (GetUpperBound (Bounds t))}"
    by (auto simp add: NonEmptySections_def IsEmpty_cut)
  then show ?thesis
    by (simp add: ActiveAt_InitialBuffers Spanning_def)
qed

lemma Sweep_Finals:
  "\<exists>pos. Finals (LowerBounds (InitialBuffers Data)) (UpperBounds (InitialBuffers Data))
            (CompiledSegments (Sweep Data)) pos \<and>
         (\<forall>y \<in> set (UpperBounds (InitialBuffers Data)). ukey y \<le> pos)"
proof -
  from Sweep_Done [of Data] obtain pos where j: "UpperReadIndex (Sweep Data) = length (UpperBounds (Sweep Data))"
    and core: "Core (Sweep Data) pos"
    and fin: "Finals (LowerBounds (Sweep Data)) (UpperBounds (Sweep Data)) (CompiledSegments (Sweep Data)) pos"
    unfolding Done_def by blast
  from core have "Split (LowerBounds (Sweep Data)) (UpperBounds (Sweep Data))
      (LowerReadIndex (Sweep Data)) (length (UpperBounds (Sweep Data))) pos"
    by (simp add: Core_def j)
  then have "\<forall>y \<in> set (UpperBounds (Sweep Data)). ukey y \<le> pos"
    by (simp add: Split_def)
  with fin show ?thesis
    unfolding Sweep_bounds by blast
qed

lemma Sweep_segments:
  fixes Data :: "'a::linorder FMovieSceneSectionData list"
  defines "segs \<equiv> CompiledSegments (Sweep Data)"
  shows Sweep_nonempty: "\<And>s. s \<in> set segs \<Longrightarrow> slo s < shi s"
    and Sweep_sorted: "sorted_wrt (\<lambda>s t. shi s \<le> slo t) segs"
    and Sweep_impls: "\<And>s c. s \<in> set segs \<Longrightarrow> slo s \<le> c \<Longrightarrow> c < shi s \<Longrightarrow>
           set (Impls s) = set (map EvalData (Spanning Data c))"
    and Sweep_covers: "\<And>t c. t \<in> set Data \<Longrightarrow> lcut (GetLowerBound (Bounds t)) \<le> c \<Longrightarrow>
           c < ucut (GetUpperBound (Bounds t)) \<Longrightarrow> \<exists>s \<in> set segs. slo s \<le> c \<and> c < shi s"
proof -
  let ?L = "LowerBounds (InitialBuffers Data)" and ?U = "UpperBounds (InitialBuffers Data)"
  from Sweep_Finals [of Data] obtain pos where fin: "Finals ?L ?U segs pos"
    and upper: "\<And>y. y \<in> set ?U \<Longrightarrow> ukey y \<le> pos"
    unfolding segs_def by blast
  from fin have final: "\<And>s. s \<in> set segs \<Longrightarrow> SegFinal ?L ?U s"
    and cov: "Covered ?L ?U segs pos"
    by (simp_all add: Finals_def)
  show "slo s < shi s" if "s \<in> set segs" for s
    using final [OF that] by (simp add: SegFinal_def)
  show "sorted_wrt (\<lambda>s t. shi s \<le> slo t) segs"
    using fin by (simp add: Finals_def)
  show "set (Impls s) = set (map EvalData (Spanning Data c))"
    if "s \<in> set segs" "slo s \<le> c" "c < shi s" for s c
  proof -
    from final [OF that(1)] that(2,3) have "set (Impls s) = set_mset (ActiveAt ?L ?U c)"
      unfolding SegFinal_def by blast
    then show ?thesis by (simp only: ActiveAt_Spanning)
  qed
  show "\<exists>s \<in> set segs. slo s \<le> c \<and> c < shi s"
    if t: "t \<in> set Data" and lo: "lcut (GetLowerBound (Bounds t)) \<le> c"
      and hi: "c < ucut (GetUpperBound (Bounds t))" for t c
  proof -
    from lo hi have "lcut (GetLowerBound (Bounds t)) < ucut (GetUpperBound (Bounds t))"
      by (rule le_less_trans)
    with t have ne: "t \<in> set (NonEmptySections Data)"
      by (simp add: NonEmptySections_def IsEmpty_cut not_le)
    have "set ?U = set_mset (mset ?U)" by simp
    also have "\<dots> = (\<lambda>Section. \<lparr>BoundEvalData = EvalData Section, Bound = GetUpperBound (Bounds Section)\<rparr>) `
                       set (NonEmptySections Data)"
      unfolding InitialBuffers_msets by simp
    finally have "\<lparr>BoundEvalData = EvalData t, Bound = GetUpperBound (Bounds t)\<rparr> \<in> set ?U"
      using ne by blast
    from upper [OF this] have "ucut (GetUpperBound (Bounds t)) \<le> pos"
      by (simp add: ukey_def)
    with hi have "c < pos" by (rule less_le_trans)
    moreover from t lo hi have "t \<in> set (Spanning Data c)"
      by (simp add: Spanning_def)
    then have "EvalData t \<in> set_mset (ActiveAt ?L ?U c)"
      unfolding ActiveAt_Spanning by simp
    then have "ActiveAt ?L ?U c \<noteq> {#}" by auto
    ultimately show ?thesis
      using cov unfolding Covered_def by blast
  qed
qed

section \<open>Coverage, ordering and balance of the sweep\<close>

text \<open>Two sections that overlap over [5, 10).\<close>

definition TwoOverlapping :: "int FMovieSceneSectionData list" where
  "TwoOverlapping = [SectionAt 0 10 0, SectionAt 5 15 1]"

lemma Sweep_TwoOverlapping:
  "Sweep TwoOverlapping =
     \<lparr>OverlappingSections = [], OverlappingRefCounts = [],
      LowerBounds =
        [\<lparr>BoundEvalData = \<lparr>ImplIndex = 0, Flags = NoFlags\<rparr>, Bound = Inclusive 0\<rparr>,
         \<lparr>BoundEvalData = \<lparr>ImplIndex = 1, Flags = NoFlags\<rparr>, Bound = Inclusive 5\<rparr>],
      UpperBounds =
        [\<lparr>BoundEvalData = \<lparr>ImplIndex = 0, Flags = NoFlags\<rparr>, Bound = Exclusive 10\<rparr>,
         \<lparr>BoundEvalData = \<lparr>ImplIndex = 1, Flags = NoFlags\<rparr>, Bound = Exclusive 15\<rparr>],
      CompiledSegments =
        [\<lparr>Range' = TRange (Inclusive 0) (Exclusive 5), Impls = [\<lparr>ImplIndex = 0, Flags = NoFlags\<rparr>]\<rparr>,
         \<lparr>Range' = TRange (Inclusive 5) (Exclusive 10),
            Impls = [\<lparr>ImplIndex = 0, Flags = NoFlags\<rparr>, \<lparr>ImplIndex = 1, Flags = NoFlags\<rparr>]\<rparr>,
         \<lparr>Range' = TRange (Inclusive 10) (Exclusive 15), Impls = [\<lparr>ImplIndex = 1, Flags = NoFlags\<rparr>]\<rparr>],
      LowerReadIndex = 2, UpperReadIndex = 2\<rparr>"
  by code_simp

lemma Compile_TwoOverlapping:
  "Compile TwoOverlapping None =
     [\<lparr>Range' = TRange (Inclusive 0) (Exclusive 5), Impls = [\<lparr>ImplIndex = 0, Flags = NoFlags\<rparr>]\<rparr>,
      \<lparr>Range' = TRange (Inclusive 5) (Exclusive 10),
         Impls = [\<lparr>ImplIndex = 0, Flags = NoFlags\<rparr>, \<lparr>ImplIndex = 1, Flags = NoFlags\<rparr>]\<rparr>,
      \<lparr>Range' = TRange (Inclusive 10) (Exclusive 15), Impls = [\<lparr>ImplIndex = 1, Flags = NoFlags\<rparr>]\<rparr>]"
  by (simp add: Compile_def Sweep_TwoOverlapping)

lemma Spanning_point:
  "Spanning Data (Cut p False) = filter (\<lambda>t. ContainsElement (Bounds t) p) Data"
  by (simp add: Spanning_def ContainsElement_cut)

lemma segment_cuts:
  "ContainsElement (Range' s) p \<longleftrightarrow> slo s \<le> Cut p False \<and> Cut p False < shi s"
  by (simp add: ContainsElement_cut slo_def shi_def)

text \<open>C1: when the sections are compiled without rules and a point lies in the range of
  one of them, a compiled segment contains the point, and every compiled segment that
  contains the point lists exactly the evaluation data of the sections whose range
  contains the point.\<close>

theorem Compile_coverage:
  assumes "s \<in> set Data" and "ContainsElement (Bounds s) p"
  shows "(\<exists>seg \<in> set (Compile Data None). ContainsElement (Range' seg) p) \<and>
         (\<forall>seg \<in> set (Compile Data None). ContainsElement (Range' seg) p \<longrightarrow>
            set (Impls seg) = set (map EvalData (filter (\<lambda>t. ContainsElement (Bounds t) p) Data)))"
proof
  from assms(2) have "lcut (GetLowerBound (Bounds s)) \<le> Cut p False"
    and "Cut p False < ucut (GetUpperBound (Bounds s))"
    by (simp_all add: ContainsElement_cut)
  with assms(1) have "\<exists>seg \<in> set (CompiledSegments (Sweep Data)). slo seg \<le> Cut p False \<and> Cut p False < shi seg"
    by (rule Sweep_covers)
  then show "\<exists>seg \<in> set (Compile Data None). ContainsElement (Range' seg) p"
    by (simp add: Compile_def segment_cuts)
next
  show "\<forall>seg \<in> set (Compile Data None). ContainsElement (Range' seg) p \<longrightarrow>
          set (Impls seg) = set (map EvalData (filter (\<lambda>t. ContainsElement (Bounds t) p) Data))"
  proof (intro ballI impI)
    fix seg
    assume "seg \<in> set (Compile Data None)" and "ContainsElement (Range' seg) p"
    then have "seg \<in> set (CompiledSegments (Sweep Data))"
      and "slo seg \<le> Cut p False" and "Cut p False < shi seg"
      by (simp_all add: Compile_def segment_cuts)
    then have "set (Impls seg) = set (map EvalData (Spanning Data (Cut p False)))"
      by (rule Sweep_impls)
    then show "set (Impls seg) = set (map EvalData (filter (\<lambda>t. ContainsElement (Bounds t) p) Data))"
      by (simp only: Spanning_point)
  qed
qed

theorem Compile_coverage_witness:
  "SectionAt 0 10 0 \<in> set TwoOverlapping \<and>
   ContainsElement (Bounds (SectionAt 0 10 0)) 7 \<and>
   Compile TwoOverlapping None ! 1 \<in> set (Compile TwoOverlapping None) \<and>
   ContainsElement (Range' (Compile TwoOverlapping None ! 1)) 7 \<and>
   set (Impls (Compile TwoOverlapping None ! 1)) =
     set (map EvalData (filter (\<lambda>t. ContainsElement (Bounds t) 7) TwoOverlapping)) \<and>
   Impls (Compile TwoOverlapping None ! 1) =
     [\<lparr>ImplIndex = 0, Flags = NoFlags\<rparr>, \<lparr>ImplIndex = 1, Flags = NoFlags\<rparr>]"
  using Compile_coverage [of "SectionAt 0 10 0" TwoOverlapping 7]
  by (simp add: Compile_TwoOverlapping, simp add: TwoOverlapping_def SectionAt_def ContainsElement_def)

text \<open>C2: the segments compiled without rules stand in strictly increasing order of
  their lower bounds, and two different segments of the result do not overlap: their
  intersection is empty and no point lies in both.\<close>

theorem Compile_ordered:
  "(\<forall>i j. i < j \<and> j < length (Compile Data None) \<longrightarrow>
      MinLower (GetLowerBound (Range' (Compile Data None ! i)))
               (GetLowerBound (Range' (Compile Data None ! j))) =
        GetLowerBound (Range' (Compile Data None ! i)) \<and>
      GetLowerBound (Range' (Compile Data None ! i)) \<noteq> GetLowerBound (Range' (Compile Data None ! j))) \<and>
   (\<forall>i j. i < length (Compile Data None) \<and> j < length (Compile Data None) \<and> i \<noteq> j \<longrightarrow>
      IsEmpty (Intersection (Range' (Compile Data None ! i)) (Range' (Compile Data None ! j))) \<and>
      (\<forall>p. \<not> (ContainsElement (Range' (Compile Data None ! i)) p \<and>
               ContainsElement (Range' (Compile Data None ! j)) p)))"
proof -
  let ?segs = "CompiledSegments (Sweep Data)"
  have segs: "Compile Data None = ?segs" by (simp add: Compile_def)
  have ne: "slo (?segs ! i) < shi (?segs ! i)" if "i < length ?segs" for i
    using that by (intro Sweep_nonempty [where Data = Data]) simp
  have next_seg: "shi (?segs ! i) \<le> slo (?segs ! j)" if "i < j" "j < length ?segs" for i j
    using Sweep_sorted [of Data] that by (simp add: sorted_wrt_iff_nth_less)
  have lower: "slo (?segs ! i) < slo (?segs ! j)" if "i < j" "j < length ?segs" for i j
  proof -
    from that have "i < length ?segs" by simp
    from ne [OF this] next_seg [OF that] show ?thesis by (rule less_le_trans)
  qed
  have apart: "min (shi (?segs ! i)) (shi (?segs ! j)) \<le> max (slo (?segs ! i)) (slo (?segs ! j))"
    if "i < length ?segs" "j < length ?segs" "i \<noteq> j" for i j
  proof (cases "i < j")
    case True
    from next_seg [OF True that(2)] show ?thesis
      by (simp add: min_le_iff_disj le_max_iff_disj)
  next
    case False
    with that(3) have "j < i" by simp
    from next_seg [OF this that(1)] show ?thesis
      by (simp add: min_le_iff_disj le_max_iff_disj)
  qed
  have first: "MinLower (GetLowerBound (Range' (?segs ! i))) (GetLowerBound (Range' (?segs ! j))) =
                 GetLowerBound (Range' (?segs ! i)) \<and>
               GetLowerBound (Range' (?segs ! i)) \<noteq> GetLowerBound (Range' (?segs ! j))"
    if "i < j" "j < length ?segs" for i j
    using lower [OF that] by (auto simp add: MinLower_iff slo_def)
  have empty: "IsEmpty (Intersection (Range' (?segs ! i)) (Range' (?segs ! j)))"
    if "i < length ?segs" "j < length ?segs" "i \<noteq> j" for i j
    using apart [OF that]
    by (simp add: Intersection_def IsEmpty_iff lcut_MaxLower ucut_MinUpper slo_def shi_def)
  have no_point: "\<not> (ContainsElement (Range' (?segs ! i)) p \<and> ContainsElement (Range' (?segs ! j)) p)"
    if "i < length ?segs" "j < length ?segs" "i \<noteq> j" for i j p
  proof
    assume "ContainsElement (Range' (?segs ! i)) p \<and> ContainsElement (Range' (?segs ! j)) p"
    then have "max (slo (?segs ! i)) (slo (?segs ! j)) \<le> Cut p False"
      and "Cut p False < min (shi (?segs ! i)) (shi (?segs ! j))"
      by (simp_all add: segment_cuts)
    then have "max (slo (?segs ! i)) (slo (?segs ! j)) < min (shi (?segs ! i)) (shi (?segs ! j))"
      by (rule le_less_trans)
    moreover from apart [OF that]
    have "\<not> max (slo (?segs ! i)) (slo (?segs ! j)) < min (shi (?segs ! i)) (shi (?segs ! j))"
      by (rule leD)
    ultimately show False by (rule rev_notE)
  qed
  show ?thesis
    unfolding segs using first empty no_point by blast
qed

theorem Compile_ordered_witness:
  "(0::nat) < 1 \<and> 1 < length (Compile TwoOverlapping None) \<and>
   MinLower (GetLowerBound (Range' (Compile TwoOverlapping None ! 0)))
            (GetLowerBound (Range' (Compile TwoOverlapping None ! 1))) =
     GetLowerBound (Range' (Compile TwoOverlapping None ! 0)) \<and>
   GetLowerBound (Range' (Compile TwoOverlapping None ! 0)) \<noteq>
     GetLowerBound (Range' (Compile TwoOverlapping None ! 1)) \<and>
   IsEmpty (Intersection (Range' (Compile TwoOverlapping None ! 0)) (Range' (Compile TwoOverlapping None ! 1)))"
  using Compile_ordered [of TwoOverlapping]
  by (simp add: Compile_TwoOverlapping Intersection_def)

text \<open>C7: the sweep ends with nothing overlapping, whatever the sections: both bound
  lists are read to their end, they hold the same evaluation data the same number of
  times, and the list of overlapping sections and the list of their reference counts are
  empty, so the check after the sweep holds.\<close>

theorem Sweep_balanced:
  "OverlappingSections (Sweep Data) = [] \<and>
   OverlappingRefCounts (Sweep Data) = [] \<and>
   LowerReadIndex (Sweep Data) = length (LowerBounds (Sweep Data)) \<and>
   UpperReadIndex (Sweep Data) = length (UpperBounds (Sweep Data)) \<and>
   image_mset BoundEvalData (mset (LowerBounds (Sweep Data))) =
     image_mset BoundEvalData (mset (UpperBounds (Sweep Data)))"
proof -
  from Sweep_Done [of Data] obtain pos where "Core (Sweep Data) pos"
    and idx: "LowerReadIndex (Sweep Data) = length (LowerBounds (Sweep Data))"
      "UpperReadIndex (Sweep Data) = length (UpperBounds (Sweep Data))"
    and empty: "OverlappingSections (Sweep Data) = []"
    unfolding Done_def by blast
  then have "WfCounts (OverlappingSections (Sweep Data)) (OverlappingRefCounts (Sweep Data))"
    and "Balanced (LowerBounds (Sweep Data)) (UpperBounds (Sweep Data))"
    by (simp_all add: Core_def Counted_def)
  with empty have "OverlappingRefCounts (Sweep Data) = []"
    and "image_mset BoundEvalData (mset (LowerBounds (Sweep Data))) =
         image_mset BoundEvalData (mset (UpperBounds (Sweep Data)))"
    by (simp_all add: WfCounts_def Balanced_def)
  with idx empty show ?thesis by simp
qed

theorem Sweep_balanced_witness:
  "OverlappingSections (Sweep TwoOverlapping) = [] \<and>
   OverlappingRefCounts (Sweep TwoOverlapping) = [] \<and>
   LowerReadIndex (Sweep TwoOverlapping) = 2 \<and>
   UpperReadIndex (Sweep TwoOverlapping) = 2"
  using Sweep_balanced [of TwoOverlapping]
  by (simp add: Sweep_TwoOverlapping)

section \<open>Compile as a member function and the order of equal bounds\<close>

text \<open>The predicates by which Compile sorts the lower bounds and the upper bounds.\<close>

definition LowerPredicate :: "'a::linorder FBound \<Rightarrow> 'a FBound \<Rightarrow> bool" where
  "LowerPredicate A B \<longleftrightarrow> MinLower (Bound A) (Bound B) = Bound A"

definition UpperPredicate :: "'a::linorder FBound \<Rightarrow> 'a FBound \<Rightarrow> bool" where
  "UpperPredicate A B \<longleftrightarrow> MinUpper (Bound A) (Bound B) = Bound A"

text \<open>The bounds that the first loop of Compile adds to the two lists: those of the
  sections whose range is not empty, in the order of the sections.\<close>

definition LowerBoundsOf :: "'a::linorder FMovieSceneSectionData list \<Rightarrow> 'a FBound list" where
  "LowerBoundsOf Data =
     map (\<lambda>Section. \<lparr>BoundEvalData = EvalData Section, Bound = GetLowerBound (Bounds Section)\<rparr>)
         (NonEmptySections Data)"

definition UpperBoundsOf :: "'a::linorder FMovieSceneSectionData list \<Rightarrow> 'a FBound list" where
  "UpperBoundsOf Data =
     map (\<lambda>Section. \<lparr>BoundEvalData = EvalData Section, Bound = GetUpperBound (Bounds Section)\<rparr>)
         (NonEmptySections Data)"

text \<open>Compile is a member function of the compiler: it starts from the buffers that the
  compiler holds and leaves them for the next call. From the buffers st it returns the
  segments, which it moves out of their buffer, and the buffers it leaves. It resets the
  buffers, adds the bounds of the sections to the two lists, sorts the two lists and
  sweeps. TArray::Sort is not part of the sources at hand; Sorter stands for it: Sorter
  pred xs is the array that the sort routine makes of the array xs under the predicate
  pred.\<close>

definition CompileOn ::
  "(('a FBound \<Rightarrow> 'a FBound \<Rightarrow> bool) \<Rightarrow> 'a FBound list \<Rightarrow> 'a FBound list) \<Rightarrow>
   'a::linorder FMovieSceneSegmentCompiler \<Rightarrow> 'a FMovieSceneSectionData list \<Rightarrow>
   'a FMovieSceneSegmentCompilerRules option \<Rightarrow>
   'a FMovieSceneSegment list \<times> 'a FMovieSceneSegmentCompiler" where
  "CompileOn Sorter st Data Rules =
     (let st1 = st\<lparr>OverlappingSections := [], OverlappingRefCounts := [],
                   LowerBounds := [], UpperBounds := [], CompiledSegments := [],
                   LowerReadIndex := 0, UpperReadIndex := 0\<rparr>;
          st2 = st1\<lparr>LowerBounds := LowerBounds st1 @ LowerBoundsOf Data,
                    UpperBounds := UpperBounds st1 @ UpperBoundsOf Data\<rparr>;
          st3 = st2\<lparr>LowerBounds := Sorter LowerPredicate (LowerBounds st2)\<rparr>;
          st4 = st3\<lparr>UpperBounds := Sorter UpperPredicate (UpperBounds st3)\<rparr>;
          st5 = CloseCompletedSegments (CompileLoop st4);
          Segs = (case Rules of
                    None \<Rightarrow> CompiledSegments st5
                  | Some R \<Rightarrow> fst (ProcessSegments R (CompiledSegments st5) Data))
      in (Segs, st5\<lparr>CompiledSegments := []\<rparr>))"

text \<open>What a sort routine does for a predicate: the array it leaves holds the entries of
  the array it was given, and each entry stands before those that the predicate lets it
  precede. The order of entries that the predicate does not separate is left to it.\<close>

definition SortsBy :: "('b \<Rightarrow> 'b \<Rightarrow> bool) \<Rightarrow> 'b list \<Rightarrow> 'b list \<Rightarrow> bool" where
  "SortsBy pred xs ys \<longleftrightarrow> mset ys = mset xs \<and> sorted_wrt pred ys"






lemma lower_predicate:
  fixes A B :: "'a::linorder FBound"
  shows "LowerPredicate A B \<longleftrightarrow> lkey A \<le> lkey B"
  by (simp add: LowerPredicate_def MinLower_iff lkey_def)

lemma upper_predicate:
  fixes A B :: "'a::linorder FBound"
  shows "UpperPredicate A B \<longleftrightarrow> ukey A \<le> ukey B"
  by (simp add: UpperPredicate_def MinUpper_iff ukey_def)



subsection \<open>The buffers at the start of the sweep\<close>

lemma buffers_reset:
  fixes st :: "'a FMovieSceneSegmentCompiler"
  shows "st\<lparr>OverlappingSections := [], OverlappingRefCounts := [], LowerBounds := L, UpperBounds := U,
            CompiledSegments := [], LowerReadIndex := 0, UpperReadIndex := 0\<rparr> =
         \<lparr>OverlappingSections = [], OverlappingRefCounts = [], LowerBounds = L, UpperBounds = U,
          CompiledSegments = [], LowerReadIndex = 0, UpperReadIndex = 0\<rparr>"
  by (cases st) simp

lemma predicates_keys:
  "LowerPredicate = (\<lambda>A B :: 'a::linorder FBound. lkey A \<le> lkey B)"
  "UpperPredicate = (\<lambda>A B :: 'a::linorder FBound. ukey A \<le> ukey B)"
  by (intro ext, rule lower_predicate) (intro ext, rule upper_predicate)

lemma predicates_unfold:
  "LowerPredicate = (\<lambda>A B :: 'a::linorder FBound. MinLower (Bound A) (Bound B) = Bound A)"
  "UpperPredicate = (\<lambda>A B :: 'a::linorder FBound. MinUpper (Bound A) (Bound B) = Bound A)"
  by (intro ext, simp add: LowerPredicate_def) (intro ext, simp add: UpperPredicate_def)

lemma InitialBuffers_sorted:
  "LowerBounds (InitialBuffers Data) = Sort LowerPredicate (LowerBoundsOf Data)"
  "UpperBounds (InitialBuffers Data) = Sort UpperPredicate (UpperBoundsOf Data)"
  by (simp_all add: InitialBuffers_def predicates_unfold LowerBoundsOf_def UpperBoundsOf_def)

lemma CompileOn_start:
  "CompileOn Sorter st Data Rules =
     (let st5 = CloseCompletedSegments (CompileLoop
                  \<lparr>OverlappingSections = [], OverlappingRefCounts = [],
                   LowerBounds = Sorter LowerPredicate (LowerBoundsOf Data),
                   UpperBounds = Sorter UpperPredicate (UpperBoundsOf Data),
                   CompiledSegments = [], LowerReadIndex = 0, UpperReadIndex = 0\<rparr>)
      in (case Rules of
            None \<Rightarrow> CompiledSegments st5
          | Some R \<Rightarrow> fst (ProcessSegments R (CompiledSegments st5) Data),
          st5\<lparr>CompiledSegments := []\<rparr>))"
  by (cases Rules) (simp_all add: CompileOn_def Let_def buffers_reset)

lemma CompileOn_Sort: "fst (CompileOn Sort st Data Rules) = Compile Data Rules"
  by (simp add: CompileOn_start Compile_def Sweep_def InitialBuffers_def Let_def predicates_unfold
        LowerBoundsOf_def UpperBoundsOf_def)

lemma Balanced_arranged:
  assumes "Balanced L U" and "mset L' = mset L" and "mset U' = mset U"
    and "sorted (map lkey L')" and "sorted (map ukey U')"
  shows "Balanced L' U'"
  using assms by (simp add: Balanced_def)

lemma ActiveAt_arranged:
  "mset L' = mset L \<Longrightarrow> mset U' = mset U \<Longrightarrow> ActiveAt L' U' c = ActiveAt L U c"
  by (simp add: ActiveAt_def)

lemma Head_start:
  assumes "Balanced L U"
  shows "Head \<lparr>OverlappingSections = [], OverlappingRefCounts = [], LowerBounds = L, UpperBounds = U,
               CompiledSegments = [], LowerReadIndex = 0, UpperReadIndex = 0\<rparr>"
proof -
  have "Split L U 0 0 NegInf"
    by (rule SplitI) (simp_all add: ukey_def)
  moreover have "Counted L U 0 0 [] []"
    by (simp add: Counted_def WfCounts_def)
  moreover have "Finals L U [] NegInf"
    by (simp add: Finals_def Covered_def)
  ultimately show ?thesis
    unfolding Head_def Core_def using assms
    by (intro exI [of _ NegInf]) simp
qed

lemma Done_from_start:
  assumes "Balanced L U"
  shows "Done (CloseCompletedSegments (CompileLoop
           \<lparr>OverlappingSections = [], OverlappingRefCounts = [], LowerBounds = L, UpperBounds = U,
            CompiledSegments = [], LowerReadIndex = 0, UpperReadIndex = 0\<rparr>))"
proof -
  let ?start = "\<lparr>OverlappingSections = [], OverlappingRefCounts = [], LowerBounds = L, UpperBounds = U,
               CompiledSegments = [], LowerReadIndex = 0, UpperReadIndex = 0\<rparr>"
  let ?looped = "CompileLoop ?start"
  from CompileLoop_post [OF Head_start [OF assms]]
  have head: "Head ?looped" and all: "LowerReadIndex ?looped = length (LowerBounds ?looped)"
    by simp_all
  from CloseCompletedSegments_post [OF head]
  show ?thesis
  proof
    assume "Ready (CloseCompletedSegments ?looped)"
    with all show ?thesis by (simp add: Ready_def)
  next
    assume "Done (CloseCompletedSegments ?looped)"
    then show ?thesis .
  qed
qed

text \<open>The segments compiled from any arrangement of the bounds of the sections that the
  two predicates accept.\<close>

lemma arranged_segments:
  fixes Data :: "'a::linorder FMovieSceneSectionData list"
  assumes L: "SortsBy LowerPredicate (LowerBoundsOf Data) L"
    and U: "SortsBy UpperPredicate (UpperBoundsOf Data) U"
  defines "segs \<equiv> CompiledSegments (CloseCompletedSegments (CompileLoop
           \<lparr>OverlappingSections = [], OverlappingRefCounts = [], LowerBounds = L, UpperBounds = U,
            CompiledSegments = [], LowerReadIndex = 0, UpperReadIndex = 0\<rparr>))"
  shows arranged_impls: "\<And>s c. s \<in> set segs \<Longrightarrow> slo s \<le> c \<Longrightarrow> c < shi s \<Longrightarrow>
           set (Impls s) = set (map EvalData (Spanning Data c))"
    and arranged_covers: "\<And>t c. t \<in> set Data \<Longrightarrow> lcut (GetLowerBound (Bounds t)) \<le> c \<Longrightarrow>
           c < ucut (GetUpperBound (Bounds t)) \<Longrightarrow> \<exists>s \<in> set segs. slo s \<le> c \<and> c < shi s"
proof -
  let ?Lsorted = "LowerBounds (InitialBuffers Data)" and ?Usorted = "UpperBounds (InitialBuffers Data)"
  let ?start = "\<lparr>OverlappingSections = [], OverlappingRefCounts = [], LowerBounds = L, UpperBounds = U,
               CompiledSegments = [], LowerReadIndex = 0, UpperReadIndex = 0\<rparr>"
  let ?final = "CloseCompletedSegments (CompileLoop ?start)"
  from L have mL: "mset L = mset ?Lsorted" and sL: "sorted (map lkey L)"
    by (simp_all add: SortsBy_def InitialBuffers_sorted sorted_map predicates_keys)
  from U have mU: "mset U = mset ?Usorted" and sU: "sorted (map ukey U)"
    by (simp_all add: SortsBy_def InitialBuffers_sorted sorted_map predicates_keys)
  have bal: "Balanced L U"
    using Balanced_InitialBuffers [of Data] mL mU sL sU by (rule Balanced_arranged)
  have active: "set_mset (ActiveAt L U c) = set (map EvalData (Spanning Data c))" for c
    using ActiveAt_arranged [OF mL mU, of c] ActiveAt_Spanning [of Data c] by simp
  have keeps: "LowerBounds ?final = L" "UpperBounds ?final = U"
    using CompileLoop_keeps [of ?start] by simp_all
  from Done_from_start [OF bal] obtain pos where j: "UpperReadIndex ?final = length U"
    and core: "Core ?final pos" and fin: "Finals L U segs pos"
    unfolding Done_def segs_def keeps by blast
  from core have "Split L U (LowerReadIndex ?final) (length U) pos"
    unfolding Core_def keeps j by simp
  then have upper: "\<And>y. y \<in> set U \<Longrightarrow> ukey y \<le> pos"
    by (simp add: Split_def)
  from fin have final: "\<And>s. s \<in> set segs \<Longrightarrow> SegFinal L U s"
    and cov: "Covered L U segs pos"
    by (simp_all add: Finals_def)
  show "set (Impls s) = set (map EvalData (Spanning Data c))"
    if "s \<in> set segs" "slo s \<le> c" "c < shi s" for s c
  proof -
    from final [OF that(1)] that(2,3) have "set (Impls s) = set_mset (ActiveAt L U c)"
      unfolding SegFinal_def by blast
    then show ?thesis by (simp only: active)
  qed
  show "\<exists>s \<in> set segs. slo s \<le> c \<and> c < shi s"
    if t: "t \<in> set Data" and lo: "lcut (GetLowerBound (Bounds t)) \<le> c"
      and hi: "c < ucut (GetUpperBound (Bounds t))" for t c
  proof -
    from lo hi have "lcut (GetLowerBound (Bounds t)) < ucut (GetUpperBound (Bounds t))"
      by (rule le_less_trans)
    with t have ne: "t \<in> set (NonEmptySections Data)"
      by (simp add: NonEmptySections_def IsEmpty_cut not_le)
    have "set U = set_mset (mset U)" by simp
    also have "\<dots> = (\<lambda>Section. \<lparr>BoundEvalData = EvalData Section, Bound = GetUpperBound (Bounds Section)\<rparr>) `
                       set (NonEmptySections Data)"
      unfolding mU InitialBuffers_msets by simp
    finally have "\<lparr>BoundEvalData = EvalData t, Bound = GetUpperBound (Bounds t)\<rparr> \<in> set U"
      using ne by blast
    from upper [OF this] have "ucut (GetUpperBound (Bounds t)) \<le> pos"
      by (simp add: ukey_def)
    with hi have "c < pos" by (rule less_le_trans)
    moreover from t lo hi have "t \<in> set (Spanning Data c)"
      by (simp add: Spanning_def)
    then have "EvalData t \<in> set_mset (ActiveAt L U c)"
      unfolding active by simp
    then have "ActiveAt L U c \<noteq> {#}" by auto
    ultimately show ?thesis
      using cov unfolding Covered_def by blast
  qed
qed

subsection \<open>Two runs, and the sort routine\<close>




section \<open>Segments between consecutive bounds\<close>




















subsection \<open>The segments do not depend on the order of equal bounds\<close>













end
